theory Spec2Isabelle
  imports Main "HOL-Library.Char_ord" "HOL-Library.List_Lexorder" "HOL-Library.Product_Lexorder"
begin

section \<open>Python values used by the two scripts\<close>

text \<open>
  The repository holds two scripts, \<^verbatim>\<open>scripts/fetch_data.py\<close> and
  \<^verbatim>\<open>scripts/starting_fetch_data.py\<close>. Python integers are unbounded and are modelled
  by \<open>int\<close>; \<open>//\<close> and \<open>%\<close> round towards minus infinity, as \<open>div\<close> and \<open>mod\<close> on
  \<open>int\<close> do. An exception is a value of type \<open>error\<close>; a computation that may raise
  returns \<open>error + 'a\<close> with \<open>Inl\<close> for the exception.
\<close>

datatype error = KeyError | ValueError | OverflowError | RuntimeError string

subsection \<open>The calendar of Python's \<^verbatim>\<open>datetime\<close> module\<close>

text \<open>
  \<^verbatim>\<open>datetime.date\<close> holds a year, a month and a day of the proleptic Gregorian
  calendar; \<^verbatim>\<open>datetime.datetime\<close> adds the time of day. Every datetime of the scripts is
  aware and in UTC, so the time zone is not a field. The functions of this subsection are
  those of the standard library (\<^verbatim>\<open>_is_leap\<close>, \<^verbatim>\<open>_days_before_year\<close>,
  \<^verbatim>\<open>_days_in_month\<close>, \<^verbatim>\<open>_days_before_month\<close>, \<^verbatim>\<open>_ymd2ord\<close>, \<^verbatim>\<open>_ord2ymd\<close>), which
  the scripts call through \<^verbatim>\<open>timestamp\<close>, \<^verbatim>\<open>fromtimestamp\<close>, \<^verbatim>\<open>weekday\<close> and the
  addition of a \<^verbatim>\<open>timedelta\<close>.
\<close>

record date =
  year :: int
  month :: int
  day :: int

record datetime = date +
  hour :: int
  minute :: int
  second :: int
  microsecond :: int

definition is_leap :: "int \<Rightarrow> bool" where
  "is_leap y = (y mod 4 = 0 \<and> (y mod 100 \<noteq> 0 \<or> y mod 400 = 0))"

definition days_before_year :: "int \<Rightarrow> int" where
  "days_before_year y =
     (y - 1) * 365 + (y - 1) div 4 - (y - 1) div 100 + (y - 1) div 400"

definition DAYS_IN_MONTH :: "int list" where
  "DAYS_IN_MONTH = [-1, 31, 28, 31, 30, 31, 30, 31, 31, 30, 31, 30, 31]"

definition DAYS_BEFORE_MONTH :: "int list" where
  "DAYS_BEFORE_MONTH = [-1, 0, 31, 59, 90, 120, 151, 181, 212, 243, 273, 304, 334]"

definition days_in_month :: "int \<Rightarrow> int \<Rightarrow> int" where
  "days_in_month y m =
     (if m = 2 \<and> is_leap y then 29 else DAYS_IN_MONTH ! nat m)"

definition days_before_month :: "int \<Rightarrow> int \<Rightarrow> int" where
  "days_before_month y m =
     DAYS_BEFORE_MONTH ! nat m + (if m > 2 \<and> is_leap y then 1 else 0)"

definition ymd2ord :: "int \<Rightarrow> int \<Rightarrow> int \<Rightarrow> int" where
  "ymd2ord y m d = days_before_year y + days_before_month y m + d"

definition ord2ymd :: "int \<Rightarrow> date" where
  "ord2ymd n0 =
     (let n = n0 - 1;
          n400 = n div 146097; n = n mod 146097;
          y = n400 * 400 + 1;
          n100 = n div 36524; n = n mod 36524;
          n4 = n div 1461; n = n mod 1461;
          n1 = n div 365; n = n mod 365;
          y = y + (n100 * 100 + n4 * 4 + n1)
      in if n1 = 4 \<or> n100 = 4 then \<lparr>year = y - 1, month = 12, day = 31\<rparr>
         else
           let leapyear = (n1 = 3 \<and> (n4 \<noteq> 24 \<or> n100 = 3));
               m = (n + 50) div 32;
               preceding = DAYS_BEFORE_MONTH ! nat m + (if m > 2 \<and> leapyear then 1 else 0)
           in if preceding > n
              then let m = m - 1;
                       preceding = preceding
                         - (DAYS_IN_MONTH ! nat m + (if m = 2 \<and> leapyear then 1 else 0))
                   in \<lparr>year = y, month = m, day = n - preceding + 1\<rparr>
              else \<lparr>year = y, month = m, day = n - preceding + 1\<rparr>)"

definition MINYEAR :: int where "MINYEAR = 1"
definition MAXYEAR :: int where "MAXYEAR = 9999"
definition MAXORDINAL :: int where "MAXORDINAL = 3652059"

text \<open>The check made by the constructors of \<^verbatim>\<open>date\<close> and \<^verbatim>\<open>datetime\<close>.\<close>

definition valid_date :: "'a date_scheme \<Rightarrow> bool" where
  "valid_date d =
     (MINYEAR \<le> year d \<and> year d \<le> MAXYEAR \<and> 1 \<le> month d \<and> month d \<le> 12
      \<and> 1 \<le> day d \<and> day d \<le> days_in_month (year d) (month d))"

definition valid_datetime :: "datetime \<Rightarrow> bool" where
  "valid_datetime d =
     (valid_date d \<and> 0 \<le> hour d \<and> hour d < 24 \<and> 0 \<le> minute d \<and> minute d < 60
      \<and> 0 \<le> second d \<and> second d < 60 \<and> 0 \<le> microsecond d \<and> microsecond d < 1000000)"

definition toordinal :: "'a date_scheme \<Rightarrow> int" where
  "toordinal d = ymd2ord (year d) (month d) (day d)"

definition weekday :: "'a date_scheme \<Rightarrow> int" where
  "weekday d = (toordinal d + 6) mod 7"

definition date_of :: "datetime \<Rightarrow> date" where
  "date_of d = \<lparr>year = year d, month = month d, day = day d\<rparr>"


subsection \<open>Constructing and converting dates\<close>

text \<open>
  \<^verbatim>\<open>d.replace(year=y, month=m, day=day)\<close> builds a new datetime and runs the
  constructor's range check, which raises \<^verbatim>\<open>ValueError\<close>.
\<close>

definition replace_ymd :: "datetime \<Rightarrow> int \<Rightarrow> int \<Rightarrow> int \<Rightarrow> error + datetime" where
  "replace_ymd d y m dd =
     (if MINYEAR \<le> y \<and> y \<le> MAXYEAR \<and> 1 \<le> m \<and> m \<le> 12 \<and> 1 \<le> dd \<and> dd \<le> days_in_month y m
      then Inr (d\<lparr>year := y, month := m, day := dd\<rparr>)
      else Inl ValueError)"

text \<open>\<^verbatim>\<open>d.replace(hour=0, minute=0, second=0, microsecond=0)\<close>: always in range.\<close>

definition replace_midnight :: "datetime \<Rightarrow> datetime" where
  "replace_midnight d = d\<lparr>hour := 0, minute := 0, second := 0, microsecond := 0\<rparr>"

text \<open>
  \<^verbatim>\<open>d + timedelta(days=k)\<close> on a datetime and \<^verbatim>\<open>d - timedelta(days=k)\<close> on a date go
  through the ordinal and raise \<^verbatim>\<open>OverflowError\<close> outside the supported range.
\<close>

definition add_days :: "datetime \<Rightarrow> int \<Rightarrow> error + datetime" where
  "add_days d k =
     (let n = toordinal d + k
      in if 1 \<le> n \<and> n \<le> MAXORDINAL
         then Inr (d\<lparr>year := year (ord2ymd n), month := month (ord2ymd n), day := day (ord2ymd n)\<rparr>)
         else Inl OverflowError)"

definition sub_days :: "date \<Rightarrow> int \<Rightarrow> error + date" where
  "sub_days d k =
     (let n = toordinal d - k
      in if 1 \<le> n \<and> n \<le> MAXORDINAL then Inr (ord2ymd n) else Inl OverflowError)"

text \<open>
  \<^verbatim>\<open>d.timestamp()\<close> of an aware UTC datetime is the distance to 1970-01-01T00:00:00Z,
  whose ordinal is 719163. Python returns it as a float and \<^verbatim>\<open>int\<close> truncates towards
  zero; the model keeps the distance in whole microseconds and truncates that, which is
  the float's truncation whenever \<open>microsecond\<close> is 0 (every call in
  \<^verbatim>\<open>fetch_data.py\<close>) and, with microseconds, for instants between the years 1500 and
  2500, where a binary64 float resolves the microsecond.
\<close>

definition timestamp_us :: "datetime \<Rightarrow> int" where
  "timestamp_us d =
     (((toordinal d - 719163) * 86400 + hour d * 3600 + minute d * 60 + second d) * 1000000
       + microsecond d)"

definition to_unix :: "datetime \<Rightarrow> int" where
  "to_unix d =
     (let us = timestamp_us d
      in if 0 \<le> us then us div 1000000 else - ((- us) div 1000000))"

text \<open>
  \<^verbatim>\<open>datetime.fromtimestamp(ts, tz=timezone.utc)\<close> for an integer number of seconds. A
  year outside 1..9999 raises (\<^verbatim>\<open>ValueError\<close>; for a number beyond the platform's
  \<^verbatim>\<open>time_t\<close> an \<^verbatim>\<open>OverflowError\<close>; neither is a \<^verbatim>\<open>RuntimeError\<close>).
\<close>

definition fromtimestamp :: "int \<Rightarrow> error + datetime" where
  "fromtimestamp ts =
     (let n = 719163 + ts div 86400; s = ts mod 86400
      in if 1 \<le> n \<and> n \<le> MAXORDINAL
         then Inr \<lparr>year = year (ord2ymd n), month = month (ord2ymd n), day = day (ord2ymd n),
                   hour = s div 3600, minute = s mod 3600 div 60, second = s mod 60,
                   microsecond = 0\<rparr>
         else Inl ValueError)"

subsection \<open>Formatting\<close>

definition digit_char :: "nat \<Rightarrow> char" where
  "digit_char n = ''0123456789'' ! n"

fun digits :: "nat \<Rightarrow> string" where
  "digits n = (if n < 10 then [digit_char n] else digits (n div 10) @ [digit_char (n mod 10)])"

declare digits.simps [simp del]

text \<open>\<^verbatim>\<open>str(i)\<close> and the conversion \<^verbatim>\<open>"%0wd" % i\<close> of an integer.\<close>

definition str_int :: "int \<Rightarrow> string" where
  "str_int i = (if i < 0 then ''-'' @ digits (nat (- i)) else digits (nat i))"

definition zero_padded :: "nat \<Rightarrow> int \<Rightarrow> string" where
  "zero_padded w i =
     (if i < 0 then ''-'' @ replicate (w - 1 - length (digits (nat (- i)))) CHR ''0'' @ digits (nat (- i))
      else replicate (w - length (digits (nat i))) CHR ''0'' @ digits (nat i))"

text \<open>\<^verbatim>\<open>date.isoformat()\<close>: \<^verbatim>\<open>"%04d-%02d-%02d" % (year, month, day)\<close>.\<close>

definition isoformat :: "'a date_scheme \<Rightarrow> string" where
  "isoformat d = zero_padded 4 (year d) @ ''-'' @ zero_padded 2 (month d) @ ''-'' @ zero_padded 2 (day d)"

section \<open>The time window\<close>

text \<open>
  \<^verbatim>\<open>month_delta\<close> is the same function in both scripts (one writes the table of month
  lengths on four lines, the other on one).
\<close>

definition month_delta :: "datetime \<Rightarrow> int \<Rightarrow> error + datetime" where
  "month_delta d months =
     (let y = year d + (month d - 1 + months) div 12;
          m = (month d - 1 + months) mod 12 + 1;
          dim = [31, if y mod 4 = 0 \<and> (y mod 100 \<noteq> 0 \<or> y mod 400 = 0) then 29 else 28,
                 31, 30, 31, 30, 31, 31, 30, 31, 30, 31] ! nat (m - 1);
          dd = min (day d) dim
      in replace_ymd d y m dd)"

text \<open>
  The window of \<^verbatim>\<open>fetch_data.py\<close> (\<^verbatim>\<open>main\<close>, the lines from \<^verbatim>\<open>now = ...\<close> to
  \<^verbatim>\<open>todate = ...\<close>): both month shifts are cut to midnight, and the upper bound is the
  day after the end date.
\<close>

record window =
  start_dt :: datetime
  end_dt :: datetime
  fromdate_of :: int
  todate_of :: int

definition compute_window :: "datetime \<Rightarrow> int \<Rightarrow> int \<Rightarrow> error + window" where
  "compute_window now months_from months_to =
     (case month_delta now (- months_from) of Inl e \<Rightarrow> Inl e | Inr s \<Rightarrow>
      case month_delta now (- months_to) of Inl e \<Rightarrow> Inl e | Inr t \<Rightarrow>
      case add_days (replace_midnight t) 1 of Inl e \<Rightarrow> Inl e | Inr to_dt_exclusive \<Rightarrow>
        Inr \<lparr>start_dt = replace_midnight s, end_dt = replace_midnight t,
             fromdate_of = to_unix (replace_midnight s), todate_of = to_unix to_dt_exclusive\<rparr>)"

text \<open>
  The window of \<^verbatim>\<open>starting_fetch_data.py\<close>: the offsets are the constants 6 and 2, the
  shifted instants keep their time of day, and no day is added.
\<close>

definition compute_window_starting :: "datetime \<Rightarrow> error + window" where
  "compute_window_starting now =
     (case month_delta now (- 6) of Inl e \<Rightarrow> Inl e | Inr s \<Rightarrow>
      case month_delta now (- 2) of Inl e \<Rightarrow> Inl e | Inr t \<Rightarrow>
        Inr \<lparr>start_dt = s, end_dt = t, fromdate_of = to_unix s, todate_of = to_unix t\<rparr>)"

section \<open>Bucketing\<close>

text \<open>\<^verbatim>\<open>day_bucket\<close> of \<^verbatim>\<open>fetch_data.py\<close>.\<close>

definition day_bucket :: "datetime \<Rightarrow> string" where
  "day_bucket created_utc = isoformat (date_of created_utc)"

text \<open>
  \<^verbatim>\<open>bucket_date\<close> of \<^verbatim>\<open>starting_fetch_data.py\<close>: every grain other than \<^verbatim>\<open>"day"\<close>
  takes the week branch.
\<close>

definition bucket_date :: "datetime \<Rightarrow> string \<Rightarrow> error + string" where
  "bucket_date creation_utc grain =
     (if grain = ''day'' then Inr (isoformat (date_of creation_utc))
      else case sub_days (date_of creation_utc) (weekday (date_of creation_utc)) of
             Inl e \<Rightarrow> Inl e
           | Inr monday \<Rightarrow> Inr (isoformat monday))"


section \<open>The Stack Exchange API as seen by the scripts\<close>

text \<open>
  A request is the \<^verbatim>\<open>params\<close> dictionary; its entries that vary are, in this order,
  \<^verbatim>\<open>tagged\<close>, \<^verbatim>\<open>fromdate\<close>, \<^verbatim>\<open>todate\<close>, \<^verbatim>\<open>page\<close> and \<^verbatim>\<open>pagesize\<close> (the others are
  constants). A response is \<^verbatim>\<open>r.status_code\<close>, \<^verbatim>\<open>r.text\<close> and the decoded
  \<^verbatim>\<open>r.json()\<close>. An optional key of the payload is an \<open>option\<close>. Of an item only
  \<^verbatim>\<open>creation_date\<close> is read.

  The network is a parameter: a server answers the \<open>k\<close>-th request of the run, so it may
  answer the same request differently at different times. Failures of the transport
  itself and bodies that are not JSON of this shape are outside the model.
\<close>

record item =
  creation_date :: "int option"

record payload =
  quota_remaining :: "int option"
  backoff :: "int option"
  items :: "item list option"
  has_more :: "bool option"

datatype request = Params string int int int int

datatype response = Response int string payload

type_synonym server = "nat \<Rightarrow> request \<Rightarrow> response"

text \<open>What a script prints, and the pauses it makes, in order.\<close>

datatype event =
    Sleep int
  | PrintTag string date date
  | PrintError string
  | PrintStopped string nat
  | PrintDone string nat "datetime option"
  | PrintHTTP int
  | PrintBody string
  | PrintSaved nat

text \<open>
  A generator run to its end: the items it yields in order, what it prints and sleeps,
  the exception that ends it (if one does) and the number of requests made so far in the
  run. The consumer handles an item before the generator resumes, and neither script
  prints while it handles an item, so the item that makes the consumer raise ends the
  run before any later page is asked for; \<open>count_items\<close> below stops there.
\<close>

record stream =
  yielded :: "item list"
  effects :: "event list"
  raised :: "error option"
  requests :: nat

definition emit :: "item list \<Rightarrow> event list \<Rightarrow> stream \<Rightarrow> stream" where
  "emit its evs s = s\<lparr>yielded := its @ yielded s, effects := evs @ effects s\<rparr>"

section \<open>The paginated fetcher\<close>

text \<open>\<^verbatim>\<open>fetch_questions\<close> of \<^verbatim>\<open>fetch_data.py\<close>; \<open>fetch_loop\<close> is its \<^verbatim>\<open>while\<close> loop.\<close>

function fetch_loop :: "server \<Rightarrow> nat \<Rightarrow> string \<Rightarrow> int \<Rightarrow> int \<Rightarrow> int \<Rightarrow> int \<Rightarrow> int \<Rightarrow> stream" where
  "fetch_loop srv k tag fromdate todate pagesize maxp page =
     (if page \<le> maxp then
        (case srv k (Params tag fromdate todate page pagesize) of
           Response status txt pl \<Rightarrow>
             if status \<noteq> 200 then
               \<lparr>yielded = [], effects = [],
                raised = Some (RuntimeError (''HTTP '' @ str_int status @ '' | tag='' @ tag
                  @ '' | page='' @ str_int page @ '' | body='' @ take 1500 txt)),
                requests = Suc k\<rparr>
             else if quota_remaining pl = Some 0 then
               \<lparr>yielded = [], effects = [],
                raised = Some (RuntimeError (''Quota exhausted (quota_remaining=0) | tag='' @ tag
                  @ '' | page='' @ str_int page)),
                requests = Suc k\<rparr>
             else
               let b = (case backoff pl of None \<Rightarrow> 0 | Some v \<Rightarrow> v);
                   pause = (if b > 0 then [Sleep b] else []);
                   its = (case items pl of None \<Rightarrow> [] | Some xs \<Rightarrow> xs)
               in if has_more pl \<noteq> Some True
                  then \<lparr>yielded = its, effects = pause, raised = None, requests = Suc k\<rparr>
                  else emit its pause
                         (fetch_loop srv (Suc k) tag fromdate todate pagesize maxp (page + 1)))
      else \<lparr>yielded = [], effects = [], raised = None, requests = k\<rparr>)"
  by pat_completeness auto
termination
  by (relation "measure (\<lambda>(srv, k, tag, fromdate, todate, pagesize, maxp, page). nat (maxp + 1 - page))") auto

declare fetch_loop.simps [simp del]

definition fetch_questions :: "server \<Rightarrow> nat \<Rightarrow> string \<Rightarrow> int \<Rightarrow> int \<Rightarrow> int \<Rightarrow> int \<Rightarrow> stream" where
  "fetch_questions srv k tag fromdate todate pagesize maxp =
     fetch_loop srv k tag fromdate todate pagesize maxp 1"

text \<open>
  \<^verbatim>\<open>fetch_questions\<close> of \<^verbatim>\<open>starting_fetch_data.py\<close>: a status other than 200 is printed
  and ends the generator with a plain \<^verbatim>\<open>return\<close>; the quota is not read; a \<^verbatim>\<open>backoff\<close>
  key is slept on whatever its value, and \<^verbatim>\<open>time.sleep\<close> raises \<^verbatim>\<open>ValueError\<close> on a
  negative one.
\<close>

function fetch_loop_starting :: "server \<Rightarrow> nat \<Rightarrow> string \<Rightarrow> int \<Rightarrow> int \<Rightarrow> int \<Rightarrow> int \<Rightarrow> int \<Rightarrow> stream" where
  "fetch_loop_starting srv k tag fromdate todate pagesize maxp page =
     (if page \<le> maxp then
        (case srv k (Params tag fromdate todate page pagesize) of
           Response status txt pl \<Rightarrow>
             if status \<noteq> 200 then
               \<lparr>yielded = [], effects = [PrintHTTP status, PrintBody (take 2000 txt)],
                raised = None, requests = Suc k\<rparr>
             else
               (case backoff pl of
                  Some b \<Rightarrow>
                    if b < 0 then \<lparr>yielded = [], effects = [], raised = Some ValueError, requests = Suc k\<rparr>
                    else
                      let its = (case items pl of None \<Rightarrow> [] | Some xs \<Rightarrow> xs)
                      in if has_more pl \<noteq> Some True
                         then \<lparr>yielded = its, effects = [Sleep b], raised = None, requests = Suc k\<rparr>
                         else emit its [Sleep b]
                                (fetch_loop_starting srv (Suc k) tag fromdate todate pagesize maxp (page + 1))
                | None \<Rightarrow>
                    let its = (case items pl of None \<Rightarrow> [] | Some xs \<Rightarrow> xs)
                    in if has_more pl \<noteq> Some True
                       then \<lparr>yielded = its, effects = [], raised = None, requests = Suc k\<rparr>
                       else emit its []
                              (fetch_loop_starting srv (Suc k) tag fromdate todate pagesize maxp (page + 1))))
      else \<lparr>yielded = [], effects = [], raised = None, requests = k\<rparr>)"
  by pat_completeness auto
termination
  by (relation "measure (\<lambda>(srv, k, tag, fromdate, todate, pagesize, maxp, page). nat (maxp + 1 - page))") auto

declare fetch_loop_starting.simps [simp del]

definition fetch_questions_starting :: "server \<Rightarrow> nat \<Rightarrow> string \<Rightarrow> int \<Rightarrow> int \<Rightarrow> int \<Rightarrow> int \<Rightarrow> stream" where
  "fetch_questions_starting srv k tag fromdate todate pagesize maxp =
     fetch_loop_starting srv k tag fromdate todate pagesize maxp 1"


section \<open>The aggregator and the table writer\<close>

text \<open>
  \<^verbatim>\<open>counts = defaultdict(int)\<close>, keyed by \<^verbatim>\<open>(date, tag)\<close>: a dictionary keeps its keys
  in the order of their first insertion, so it is a list of entries with distinct keys.
  \<open>incr\<close> is \<^verbatim>\<open>counts[key] += 1\<close>. A count starts at 0 and only grows; it is a \<open>nat\<close>.
\<close>

type_synonym count_table = "((string \<times> string) \<times> nat) list"

fun incr :: "string \<times> string \<Rightarrow> count_table \<Rightarrow> count_table" where
  "incr key [] = [(key, 1)]"
| "incr key ((key', c) # rest) =
     (if key = key' then (key', c + 1) # rest else (key', c) # incr key rest)"

definition count_of :: "count_table \<Rightarrow> string \<times> string \<Rightarrow> nat" where
  "count_of counts key = (case map_of counts key of None \<Rightarrow> 0 | Some c \<Rightarrow> c)"

text \<open>
  A row of the CSV file in the order of its header: \<^verbatim>\<open>date\<close>, \<^verbatim>\<open>tag\<close>,
  \<^verbatim>\<open>questions_count\<close>. \<open>write_rows\<close> is the list comprehension over \<^verbatim>\<open>counts.items()\<close>
  followed by \<^verbatim>\<open>rows.sort(key=lambda x: (x["date"], x["tag"]))\<close>, the same two lines in
  both scripts. Python compares the key tuples lexicographically and the strings by code
  point, as the orders on pairs, lists and characters do here; its sort is stable, as
  \<open>sort_key\<close> is.
\<close>

type_synonym row = "string \<times> string \<times> nat"

definition row_key :: "row \<Rightarrow> string \<times> string" where
  "row_key x = (fst x, fst (snd x))"

definition write_rows :: "count_table \<Rightarrow> row list" where
  "write_rows counts = sort_key row_key (map (\<lambda>((d, tag), cnt). (d, tag, cnt)) counts)"

subsection \<open>\<^verbatim>\<open>main\<close> of \<^verbatim>\<open>fetch_data.py\<close>\<close>

record progress =
  counts :: count_table
  last_created :: "datetime option"
  fetched :: nat

text \<open>
  The body of \<^verbatim>\<open>for q in fetch_questions(...)\<close>, item by item, up to the first
  exception: \<^verbatim>\<open>q["creation_date"]\<close> raises \<^verbatim>\<open>KeyError\<close> on an item without the key. The
  table keeps what was counted before the exception.
\<close>

fun count_items :: "string \<Rightarrow> item list \<Rightarrow> progress \<Rightarrow> progress \<times> error option" where
  "count_items tag [] p = (p, None)"
| "count_items tag (q # qs) p =
     (case creation_date q of
        None \<Rightarrow> (p, Some KeyError)
      | Some ts \<Rightarrow>
          (case fromtimestamp ts of
             Inl e \<Rightarrow> (p, Some e)
           | Inr created \<Rightarrow>
               count_items tag qs
                 \<lparr>counts = incr (day_bucket created, tag) (counts p),
                  last_created = Some created, fetched = fetched p + 1\<rparr>))"

text \<open>
  The loop over \<^verbatim>\<open>args.tags\<close>. The \<^verbatim>\<open>try\<close> block holds the whole \<^verbatim>\<open>for\<close> statement, so
  the exception that leaves it is the consumer's if an item made it raise and the
  generator's otherwise; \<^verbatim>\<open>except RuntimeError\<close> takes a \<^verbatim>\<open>RuntimeError\<close> and lets every
  other exception leave \<^verbatim>\<open>main\<close>.
\<close>

fun run_tags :: "server \<Rightarrow> nat \<Rightarrow> window \<Rightarrow> int \<Rightarrow> string list \<Rightarrow> count_table \<Rightarrow> event list
    \<Rightarrow> error + (count_table \<times> event list)" where
  "run_tags srv k w maxp [] cs log = Inr (cs, log)"
| "run_tags srv k w maxp (tag # tags) cs log =
     (let s = fetch_questions srv k tag (fromdate_of w) (todate_of w) 100 maxp;
          (p, exc) = count_items tag (yielded s) \<lparr>counts = cs, last_created = None, fetched = 0\<rparr>;
          log1 = log @ [PrintTag tag (date_of (start_dt w)) (date_of (end_dt w))] @ effects s
      in case (case exc of Some e \<Rightarrow> Some e | None \<Rightarrow> raised s) of
           Some (RuntimeError msg) \<Rightarrow>
             run_tags srv (requests s) w maxp tags (counts p)
               (log1 @ [PrintError msg, PrintStopped tag (fetched p)])
         | Some e \<Rightarrow> Inl e
         | None \<Rightarrow>
             run_tags srv (requests s) w maxp tags (counts p)
               (log1 @ [if last_created p \<noteq> None then PrintDone tag (fetched p) (last_created p)
                        else PrintDone tag 0 None]))"

text \<open>
  The result of a run that ends normally is the rows handed to the CSV writer and what
  was printed; the file system is outside the model. \<^verbatim>\<open>--max-pages\<close>,
  \<^verbatim>\<open>--months-from\<close> and \<^verbatim>\<open>--months-to\<close> are any integers.
\<close>

definition main :: "server \<Rightarrow> datetime \<Rightarrow> string list \<Rightarrow> int \<Rightarrow> int \<Rightarrow> int
    \<Rightarrow> error + (row list \<times> event list)" where
  "main srv now tags maxp months_from months_to =
     (case compute_window now months_from months_to of
        Inl e \<Rightarrow> Inl e
      | Inr w \<Rightarrow>
          (case run_tags srv 0 w maxp tags [] [] of
             Inl e \<Rightarrow> Inl e
           | Inr (cs, log) \<Rightarrow>
               Inr (write_rows cs, log @ [PrintSaved (length (write_rows cs))])))"

subsection \<open>\<^verbatim>\<open>main\<close> of \<^verbatim>\<open>starting_fetch_data.py\<close>\<close>

text \<open>There is no \<^verbatim>\<open>try\<close>: the first exception ends the run.\<close>

fun count_items_starting :: "string \<Rightarrow> string \<Rightarrow> item list \<Rightarrow> count_table \<Rightarrow> count_table \<times> error option" where
  "count_items_starting grain tag [] cs = (cs, None)"
| "count_items_starting grain tag (q # qs) cs =
     (case creation_date q of
        None \<Rightarrow> (cs, Some KeyError)
      | Some ts \<Rightarrow>
          (case fromtimestamp ts of
             Inl e \<Rightarrow> (cs, Some e)
           | Inr created \<Rightarrow>
               (case bucket_date created grain of
                  Inl e \<Rightarrow> (cs, Some e)
                | Inr d \<Rightarrow> count_items_starting grain tag qs (incr (d, tag) cs))))"

fun run_tags_starting :: "server \<Rightarrow> nat \<Rightarrow> window \<Rightarrow> string \<Rightarrow> int \<Rightarrow> string list \<Rightarrow> count_table
    \<Rightarrow> event list \<Rightarrow> error + (count_table \<times> event list)" where
  "run_tags_starting srv k w grain maxp [] cs log = Inr (cs, log)"
| "run_tags_starting srv k w grain maxp (tag # tags) cs log =
     (let s = fetch_questions_starting srv k tag (fromdate_of w) (todate_of w) 100 maxp;
          (cs', exc) = count_items_starting grain tag (yielded s) cs
      in case (case exc of Some e \<Rightarrow> Some e | None \<Rightarrow> raised s) of
           Some e \<Rightarrow> Inl e
         | None \<Rightarrow> run_tags_starting srv (requests s) w grain maxp tags cs' (log @ effects s))"

definition main_starting :: "server \<Rightarrow> datetime \<Rightarrow> string list \<Rightarrow> string \<Rightarrow> int
    \<Rightarrow> error + (row list \<times> event list)" where
  "main_starting srv now tags grain maxp =
     (case compute_window_starting now of
        Inl e \<Rightarrow> Inl e
      | Inr w \<Rightarrow>
          (case run_tags_starting srv 0 w grain maxp tags [] [] of
             Inl e \<Rightarrow> Inl e
           | Inr (cs, log) \<Rightarrow>
               Inr (write_rows cs, log @ [PrintSaved (length (write_rows cs))])))"

section \<open>Quantities the statements speak of\<close>

text \<open>The sum of the counts of a tag over all its buckets, in a table and in the rows.\<close>

definition table_total :: "string \<Rightarrow> count_table \<Rightarrow> nat" where
  "table_total t cs = sum_list (map snd (filter (\<lambda>e. snd (fst e) = t) cs))"

definition rows_total :: "string \<Rightarrow> row list \<Rightarrow> nat" where
  "rows_total t rows = sum_list (map (\<lambda>x. snd (snd x)) (filter (\<lambda>x. fst (snd x) = t) rows))"

text \<open>
  The number of items the fetcher yields for tag \<open>t\<close> over a run: the fetcher alone is
  run for each requested tag in turn (a tag requested twice is fetched twice).
\<close>

fun yielded_total :: "server \<Rightarrow> nat \<Rightarrow> window \<Rightarrow> int \<Rightarrow> string list \<Rightarrow> string \<Rightarrow> nat" where
  "yielded_total srv k w maxp [] t = 0"
| "yielded_total srv k w maxp (tag # tags) t =
     (let s = fetch_questions srv k tag (fromdate_of w) (todate_of w) 100 maxp
      in (if tag = t then length (yielded s) else 0) + yielded_total srv (requests s) w maxp tags t)"

fun yielded_total_starting :: "server \<Rightarrow> nat \<Rightarrow> window \<Rightarrow> int \<Rightarrow> string list \<Rightarrow> string \<Rightarrow> nat" where
  "yielded_total_starting srv k w maxp [] t = 0"
| "yielded_total_starting srv k w maxp (tag # tags) t =
     (let s = fetch_questions_starting srv k tag (fromdate_of w) (todate_of w) 100 maxp
      in (if tag = t then length (yielded s) else 0)
         + yielded_total_starting srv (requests s) w maxp tags t)"

text \<open>The epoch second of 00:00:00 UTC of a date.\<close>

definition midnight_epoch :: "'a date_scheme \<Rightarrow> int" where
  "midnight_epoch d = (toordinal d - 719163) * 86400"


section \<open>The calendar: ordinals and dates\<close>

text \<open>
  The second half of \<open>ord2ymd\<close>, from the day of the year to the month and the day, as a
  function of its own for the proofs.
\<close>

definition month_day_of :: "int \<Rightarrow> bool \<Rightarrow> int \<times> int" where
  "month_day_of n leapyear = (let m = (n + 50) div 32;
               preceding = DAYS_BEFORE_MONTH ! nat m + (if m > 2 \<and> leapyear then 1 else 0)
           in if preceding > n
              then let m = m - 1;
                       preceding = preceding
                         - (DAYS_IN_MONTH ! nat m + (if m = 2 \<and> leapyear then 1 else 0))
                   in (m, n - preceding + 1)
              else (m, n - preceding + 1))"

lemma month_day_of_ok:
  assumes "0 \<le> n" "n \<le> (if leap then 365 else 364)" "month_day_of n leap = (m, d)"
  shows "1 \<le> m \<and> m \<le> 12 \<and> 1 \<le> d
     \<and> d \<le> (if m = 2 \<and> leap then 29 else DAYS_IN_MONTH ! nat m)
     \<and> DAYS_BEFORE_MONTH ! nat m + (if m > 2 \<and> leap then 1 else 0) + d = n + 1"
proof -
  define k where "k = (n + 50) div 32"
  have kb: "32 * k \<le> n + 50" "n + 50 < 32 * k + 32" unfolding k_def by presburger+
  have "1 \<le> k" "k \<le> 12" using kb assms(1,2) by (auto split: if_splits)
  then have "k = 1 \<or> k = 2 \<or> k = 3 \<or> k = 4 \<or> k = 5 \<or> k = 6 \<or> k = 7 \<or> k = 8 \<or> k = 9
    \<or> k = 10 \<or> k = 11 \<or> k = 12" by arith
  then show ?thesis using kb assms k_def
    by (elim disjE) (auto simp: month_day_of_def Let_def DAYS_BEFORE_MONTH_def DAYS_IN_MONTH_def split: if_splits)
qed

lemma div_qr: "0 \<le> r \<Longrightarrow> r < k \<Longrightarrow> ((k::int) * q + r) div k = q"
  by (simp add: div_pos_pos_trivial)

lemma mod_qr: "0 \<le> r \<Longrightarrow> r < k \<Longrightarrow> ((k::int) * q + r) mod k = r"
  by (simp add: mod_pos_pos_trivial)

lemma dby_decomp:
  assumes "0 \<le> b" "b \<le> 3" "0 \<le> c" "c \<le> 24" "0 \<le> d" "d \<le> 3"
  shows "days_before_year (400 * a + 100 * b + 4 * c + d + 1) = 146097 * a + 36524 * b + 1461 * c + 365 * d"
proof -
  have 1: "(400 * a + 100 * b + 4 * c + d) div 4 = 100 * a + 25 * b + c"
    using div_qr[of d 4 "100 * a + 25 * b + c"] assms by (simp add: algebra_simps)
  have 2: "(400 * a + 100 * b + 4 * c + d) div 100 = 4 * a + b"
    using div_qr[of "4 * c + d" 100 "4 * a + b"] assms by (simp add: algebra_simps)
  have 3: "(400 * a + 100 * b + 4 * c + d) div 400 = a" 
    using div_qr[of "100 * b + 4 * c + d" 400 "a"] assms by (simp add: algebra_simps)
  show ?thesis unfolding days_before_year_def using 1 2 3 by simp
qed

lemma mod_qr': "((k::int) * q + r) mod k = r mod k"
  by simp

lemma is_leap_decomp:
  assumes "0 \<le> b" "b \<le> 3" "0 \<le> c" "c \<le> 24" "0 \<le> d" "d \<le> 3"
  shows "is_leap (400 * a + 100 * b + 4 * c + d + 1) = (d = 3 \<and> (c \<noteq> 24 \<or> b = 3))"
proof -
  let ?y = "400 * a + 100 * b + 4 * c + d + 1"
  have 1: "?y mod 4 = (d + 1) mod 4"
    using mod_qr'[of 4 "100 * a + 25 * b + c" "d + 1"] by (simp add: algebra_simps)
  have 2: "?y mod 100 = (4 * c + d + 1) mod 100"
    using mod_qr'[of 100 "4 * a + b" "4 * c + d + 1"] by (simp add: algebra_simps)
  have 3: "?y mod 400 = (100 * b + 4 * c + d + 1) mod 400"
    using mod_qr'[of 400 a "100 * b + 4 * c + d + 1"] by (simp add: algebra_simps)
  have 4: "(d + 1) mod 4 = 0 \<longleftrightarrow> d = 3"
  proof (cases "d = 3")
    case True then show ?thesis by simp
  next
    case False
    then have "(d + 1) mod 4 = d + 1" using assms by (simp add: mod_pos_pos_trivial)
    then show ?thesis using assms False by simp
  qed
  have 5: "(4 * c + d + 1) mod 100 = 0 \<longleftrightarrow> c = 24" if "d = 3"
  proof (cases "c = 24")
    case True then show ?thesis using that by simp
  next
    case False
    then have "(4 * c + d + 1) mod 100 = 4 * c + d + 1" using assms that by (simp add: mod_pos_pos_trivial)
    then show ?thesis using assms False by simp
  qed
  have 6: "(100 * b + 4 * c + d + 1) mod 400 = 0 \<longleftrightarrow> b = 3" if "d = 3" "c = 24"
  proof (cases "b = 3")
    case True then show ?thesis using that by simp
  next
    case False
    then have "(100 * b + 4 * c + d + 1) mod 400 = 100 * b + 4 * c + d + 1" using assms that by (simp add: mod_pos_pos_trivial)
    then show ?thesis using assms False by simp
  qed
  show ?thesis unfolding is_leap_def 1 2 3 using 4 5 6 by (cases "d = 3"; cases "c = 24"; simp)
qed

lemma ord2ymd_roundtrip:
  assumes "1 \<le> n0"
  shows "ymd2ord (year (ord2ymd n0)) (month (ord2ymd n0)) (day (ord2ymd n0)) = n0
     \<and> 1 \<le> month (ord2ymd n0) \<and> month (ord2ymd n0) \<le> 12 \<and> 1 \<le> day (ord2ymd n0)
     \<and> day (ord2ymd n0) \<le> days_in_month (year (ord2ymd n0)) (month (ord2ymd n0))
     \<and> 1 \<le> year (ord2ymd n0) \<and> (n0 \<le> MAXORDINAL \<longrightarrow> year (ord2ymd n0) \<le> MAXYEAR)"
proof -
  define n where "n = n0 - 1"
  define a where "a = n div 146097"
  define r1 where "r1 = n mod 146097"
  define b where "b = r1 div 36524"
  define r2 where "r2 = r1 mod 36524"
  define c where "c = r2 div 1461"
  define r3 where "r3 = r2 mod 1461"
  define d where "d = r3 div 365"
  define r4 where "r4 = r3 mod 365"
  have n: "0 \<le> n" using assms n_def by simp
  have a: "0 \<le> a" using n a_def by (simp add: pos_imp_zdiv_nonneg_iff)
  have r1: "0 \<le> r1" "r1 < 146097" "n = 146097 * a + r1" unfolding r1_def a_def by simp_all
  have r2: "0 \<le> r2" "r2 < 36524" "r1 = 36524 * b + r2" unfolding r2_def b_def by simp_all
  have r3: "0 \<le> r3" "r3 < 1461" "r2 = 1461 * c + r3" unfolding r3_def c_def by simp_all
  have r4: "0 \<le> r4" "r4 < 365" "r3 = 365 * d + r4" unfolding r4_def d_def by simp_all
  have b: "0 \<le> b" "b \<le> 4" using r1 r2 by linarith+
  have c: "0 \<le> c" "c \<le> 24" using r2 r3 by linarith+
  have d: "0 \<le> d" "d \<le> 4" using r3 r4 by linarith+
  have eq0: "ord2ymd n0 = (if d = 4 \<or> b = 4 then \<lparr>year = a * 400 + 1 + (b * 100 + c * 4 + d) - 1, month = 12, day = 31\<rparr>
      else if DAYS_BEFORE_MONTH ! nat ((r4 + 50) div 32) + (if (r4 + 50) div 32 > 2 \<and> (d = 3 \<and> (c \<noteq> 24 \<or> b = 3)) then 1 else 0) > r4
        then \<lparr>year = a * 400 + 1 + (b * 100 + c * 4 + d), month = (r4 + 50) div 32 - 1,
           day = r4 - (DAYS_BEFORE_MONTH ! nat ((r4 + 50) div 32) + (if (r4 + 50) div 32 > 2 \<and> (d = 3 \<and> (c \<noteq> 24 \<or> b = 3)) then 1 else 0)
              - (DAYS_IN_MONTH ! nat ((r4 + 50) div 32 - 1) + (if (r4 + 50) div 32 - 1 = 2 \<and> (d = 3 \<and> (c \<noteq> 24 \<or> b = 3)) then 1 else 0))) + 1\<rparr>
        else \<lparr>year = a * 400 + 1 + (b * 100 + c * 4 + d), month = (r4 + 50) div 32,
           day = r4 - (DAYS_BEFORE_MONTH ! nat ((r4 + 50) div 32) + (if (r4 + 50) div 32 > 2 \<and> (d = 3 \<and> (c \<noteq> 24 \<or> b = 3)) then 1 else 0)) + 1\<rparr>)"
    unfolding r4_def d_def r3_def c_def r2_def b_def r1_def a_def n_def ord2ymd_def Let_def
    by (rule refl)
  have eq: "ord2ymd n0 = (if d = 4 \<or> b = 4 then \<lparr>year = 400 * a + 100 * b + 4 * c + d, month = 12, day = 31\<rparr>
      else \<lparr>year = 400 * a + 100 * b + 4 * c + d + 1,
            month = fst (month_day_of r4 (d = 3 \<and> (c \<noteq> 24 \<or> b = 3))),
            day = snd (month_day_of r4 (d = 3 \<and> (c \<noteq> 24 \<or> b = 3)))\<rparr>)"
    unfolding eq0 month_day_of_def Let_def by (simp add: algebra_simps)
  show ?thesis
  proof (cases "d = 4 \<or> b = 4")
    case True
    show ?thesis
    proof (cases "b = 4")
      case b4: True
      then have z: "r2 = 0" "c = 0" "r3 = 0" "d = 0" "r4 = 0" using r1 r2 r3 r4 c d by linarith+
      have y: "400 * a + 100 * b + 4 * c + d = 400 * a + 100 * 3 + 4 * 24 + 3 + 1" using b4 z by simp
      have "days_before_year (400 * a + 100 * b + 4 * c + d) = 146097 * a + 145731"
        unfolding y by (subst dby_decomp) simp_all
      moreover have "is_leap (400 * a + 100 * b + 4 * c + d)"
        unfolding y by (subst is_leap_decomp) simp_all
      moreover have "n0 = 146097 * a + 146097" using r1 r2 z b4 n_def by simp
      ultimately show ?thesis using eq True a b4 z
        by (simp add: ymd2ord_def days_before_month_def days_in_month_def DAYS_BEFORE_MONTH_def
          DAYS_IN_MONTH_def MAXORDINAL_def MAXYEAR_def)
    next
      case False
      with True have d4: "d = 4" and b3: "b \<le> 3" using b by auto
      have z: "r4 = 0" using r3 r4 d4 by linarith
      have c23: "c \<le> 23" using r2 r3 r4 d4 z by linarith
      have y: "400 * a + 100 * b + 4 * c + d = 400 * a + 100 * b + 4 * c + 3 + 1" using d4 by simp
      have "days_before_year (400 * a + 100 * b + 4 * c + d) = 146097 * a + 36524 * b + 1461 * c + 1095"
        unfolding y using b b3 c by (subst dby_decomp) simp_all
      moreover have "is_leap (400 * a + 100 * b + 4 * c + d)"
        unfolding y using b b3 c c23 by (subst is_leap_decomp) simp_all
      moreover have "n0 = 146097 * a + 36524 * b + 1461 * c + 1461" using r1 r2 r3 r4 z d4 n_def by simp
      ultimately show ?thesis using eq True a b b3 c c23 d4
        by (simp add: ymd2ord_def days_before_month_def days_in_month_def DAYS_BEFORE_MONTH_def
          DAYS_IN_MONTH_def MAXORDINAL_def MAXYEAR_def)
    qed
  next
    case False
    then have b3: "b \<le> 3" and d3: "d \<le> 3" using b d by auto
    let ?y = "400 * a + 100 * b + 4 * c + d + 1"
    let ?leap = "d = 3 \<and> (c \<noteq> 24 \<or> b = 3)"
    obtain m dd where md: "month_day_of r4 ?leap = (m, dd)" by (cases "month_day_of r4 ?leap")
    have mdok: "1 \<le> m \<and> m \<le> 12 \<and> 1 \<le> dd
     \<and> dd \<le> (if m = 2 \<and> ?leap then 29 else DAYS_IN_MONTH ! nat m)
     \<and> DAYS_BEFORE_MONTH ! nat m + (if m > 2 \<and> ?leap then 1 else 0) + dd = r4 + 1"
      using month_day_of_ok[OF _ _ md] r4 by simp
    have dby: "days_before_year ?y = 146097 * a + 36524 * b + 1461 * c + 365 * d"
      using b b3 c d d3 by (simp add: dby_decomp)
    have leap: "is_leap ?y = ?leap" using b b3 c d d3 by (simp add: is_leap_decomp)
    have n0: "n0 = 146097 * a + 36524 * b + 1461 * c + 365 * d + r4 + 1"
      using r1 r2 r3 r4 n_def by simp
    have e: "ord2ymd n0 = \<lparr>year = ?y, month = m, day = dd\<rparr>" using eq False md by simp
    have 1: "ymd2ord ?y m dd = n0"
      unfolding ymd2ord_def days_before_month_def dby leap n0 using mdok by simp
    have 2: "dd \<le> days_in_month ?y m" unfolding days_in_month_def leap using mdok by simp
    have 3: "1 \<le> ?y" using a b c d by linarith
    have 4: "?y \<le> 9999" if "n0 \<le> 3652059"
    proof (rule ccontr)
      assume "\<not> ?y \<le> 9999"
      then have k: "400 * a + 100 * b + 4 * c + d \<ge> 9999" by simp
      have "a \<le> 24" using that n0 b c d r4 by linarith
      moreover have "a \<ge> 24" using k b3 c d3 by linarith
      ultimately have a24: "a = 24" by simp
      have "b = 3" using k a24 b3 c d3 by linarith
      moreover have "c = 24" using k a24 b3 c d3 by linarith
      moreover have "d = 3" using k a24 b3 c d3 by linarith
      ultimately show False using that n0 a24 r4 by linarith
    qed
    show ?thesis unfolding e using 1 2 3 4 mdok by (simp add: MAXORDINAL_def MAXYEAR_def)
  qed
qed

section \<open>The month shift\<close>

lemma month_index_range: "1 \<le> (k::int) mod 12 + 1 \<and> k mod 12 + 1 \<le> 12"
  using pos_mod_sign[of 12 k] pos_mod_bound[of 12 k] by linarith

lemma month_table:
  assumes "1 \<le> m" "m \<le> 12"
  shows "[31, if y mod 4 = 0 \<and> (y mod 100 \<noteq> 0 \<or> y mod 400 = 0) then 29 else 28,
          31, 30, 31, 30, 31, 31, 30, 31, 30, 31] ! nat (m - 1) = days_in_month y (m::int)"
proof -
  from assms have "m = 1 \<or> m = 2 \<or> m = 3 \<or> m = 4 \<or> m = 5 \<or> m = 6 \<or> m = 7 \<or> m = 8 \<or> m = 9
    \<or> m = 10 \<or> m = 11 \<or> m = 12" by arith
  then show ?thesis
    by (elim disjE) (simp_all add: days_in_month_def is_leap_def DAYS_IN_MONTH_def)
qed

lemma month_delta_Inr:
  assumes "month_delta d months = Inr d'"
  shows "year d' = year d + (month d - 1 + months) div 12"
    and "month d' = (month d - 1 + months) mod 12 + 1"
    and "day d' = min (day d) (days_in_month (year d') (month d'))"
    and "valid_date d'"
    and "d' = d\<lparr>year := year d', month := month d', day := day d'\<rparr>"
proof -
  let ?y = "year d + (month d - 1 + months) div 12"
  let ?m = "(month d - 1 + months) mod 12 + 1"
  have m: "1 \<le> ?m" "?m \<le> 12" using month_index_range by simp_all
  have r: "replace_ymd d ?y ?m (min (day d) (days_in_month ?y ?m)) = Inr d'"
    using assms month_table[OF m] unfolding month_delta_def Let_def by simp
  then have ok: "MINYEAR \<le> ?y \<and> ?y \<le> MAXYEAR \<and> 1 \<le> min (day d) (days_in_month ?y ?m)"
    and eq: "d' = d\<lparr>year := ?y, month := ?m, day := min (day d) (days_in_month ?y ?m)\<rparr>"
    unfolding replace_ymd_def by (auto split: if_splits)
  show "year d' = ?y" "month d' = ?m" using eq by simp_all
  then show "day d' = min (day d) (days_in_month (year d') (month d'))" using eq by simp
  show "valid_date d'" using ok m eq by (simp add: valid_date_def)
  show "d' = d\<lparr>year := year d', month := month d', day := day d'\<rparr>" using eq by simp
qed









definition march_31_noon :: datetime where
  "march_31_noon = \<lparr>year = 2024, month = 3, day = 31, hour = 12, minute = 0, second = 0,
     microsecond = 0\<rparr>"



lemma month_back:
  assumes "1 \<le> (m::int)" "m \<le> 12"
  shows "(m - 1 + n) div 12 + (((m - 1 + n) mod 12 + 1) - 1 + - n) div 12 = 0"
    and "(((m - 1 + n) mod 12 + 1) - 1 + - n) mod 12 + 1 = m"
proof -
  define q where "q = (m - 1 + n) div 12"
  define r where "r = (m - 1 + n) mod 12"
  have "m - 1 + n = 12 * q + r" unfolding q_def r_def by simp
  then have e: "r + 1 - 1 + - n = 12 * (- q) + (m - 1)" by simp
  have "(12 * (- q) + (m - 1)) div 12 = - q" using assms by (intro div_qr) simp_all
  then show "(m - 1 + n) div 12 + (((m - 1 + n) mod 12 + 1) - 1 + - n) div 12 = 0"
    using e unfolding q_def[symmetric] r_def[symmetric] by simp
  have "(12 * (- q) + (m - 1)) mod 12 = m - 1" using assms by (intro mod_qr) simp_all
  then show "(((m - 1 + n) mod 12 + 1) - 1 + - n) mod 12 + 1 = m"
    using e unfolding q_def[symmetric] r_def[symmetric] by simp
qed

text \<open>
  Claim C7. For a calendar date \<open>d\<close> and an integer \<open>n\<close>, if the shift by \<open>n\<close> months
  returns \<open>d'\<close>, then the shift of \<open>d'\<close> by \<open>-n\<close> months returns too, and its result is
  \<open>d\<close> with the day of \<open>d'\<close>: the year, the month and the time of day of \<open>d\<close>, and a day
  that is at most the day of \<open>d\<close>.
\<close>

theorem month_delta_there_and_back:
  assumes "valid_date d" and "month_delta d n = Inr d'"
  shows "month_delta d' (- n) = Inr (d\<lparr>day := day d'\<rparr>) \<and> day d' \<le> day d"
proof -
  note f = month_delta_Inr[OF assms(2)]
  have v: "1 \<le> month d" "month d \<le> 12" "MINYEAR \<le> year d" "year d \<le> MAXYEAR" "1 \<le> day d"
    "day d \<le> days_in_month (year d) (month d)"
    using assms(1) by (simp_all add: valid_date_def)
  have vd': "1 \<le> day d'" using f(4) by (simp add: valid_date_def)
  have le: "day d' \<le> day d" using f(3) by simp
  have y: "year d' + (month d' - 1 + - n) div 12 = year d"
    using month_back(1)[OF v(1,2), of n] f(1,2) by simp
  have m: "(month d' - 1 + - n) mod 12 + 1 = month d"
    using month_back(2)[OF v(1,2), of n] f(2) by simp
  have "month_delta d' (- n) = replace_ymd d' (year d) (month d) (min (day d') (days_in_month (year d) (month d)))"
    unfolding month_delta_def Let_def y m using month_table[OF v(1,2)] by simp
  also have "\<dots> = Inr (d'\<lparr>year := year d, month := month d, day := day d'\<rparr>)"
    unfolding replace_ymd_def using v vd' le by simp
  also have "d'\<lparr>year := year d, month := month d, day := day d'\<rparr> = d\<lparr>day := day d'\<rparr>"
    by (subst f(5)) simp
  finally show ?thesis using le by simp
qed


theorem month_delta_there_and_back_witness:
  "valid_date march_31_noon
   \<and> month_delta march_31_noon (- 1) = Inr (march_31_noon\<lparr>month := 2, day := 29\<rparr>)
   \<and> month_delta (march_31_noon\<lparr>month := 2, day := 29\<rparr>) (- (- 1)) = Inr (march_31_noon\<lparr>day := 29\<rparr>)
   \<and> (29::int) \<le> day march_31_noon"
proof -
  have v: "valid_date march_31_noon"
    by (simp add: valid_date_def march_31_noon_def days_in_month_def DAYS_IN_MONTH_def
        MINYEAR_def MAXYEAR_def)
  have h: "month_delta march_31_noon (- 1) = Inr (march_31_noon\<lparr>month := 2, day := 29\<rparr>)"
    by (simp add: month_delta_def replace_ymd_def march_31_noon_def days_in_month_def
        is_leap_def DAYS_IN_MONTH_def MINYEAR_def MAXYEAR_def Let_def)
  from month_delta_there_and_back[OF v h] v h show ?thesis by simp
qed

section \<open>The calendar: ordinals grow with the date\<close>

lemma div_step: 
  assumes "0 < (k::int)"
  shows "y div k - (y - 1) div k = (if y mod k = 0 then 1 else 0)"
proof (cases "y mod k = 0")
  case True
  then obtain q where q: "y = k * q" by auto
  have "(k * q - 1) div k = (k * (q - 1) + (k - 1)) div k" by (simp add: algebra_simps)
  also have "\<dots> = q - 1" using assms by (intro div_qr) simp_all
  finally show ?thesis using True q assms by simp
next
  case False
  define r where "r = y mod k"
  define q where "q = y div k"
  have r: "0 < r" "r < k"
    using False assms pos_mod_sign[of k y] pos_mod_bound[of k y] unfolding r_def by linarith+
  have y: "y = k * q + r" unfolding q_def r_def by simp
  have e: "y - 1 = k * q + (r - 1)" using y by linarith
  have "(y - 1) div k = q" unfolding e using r by (intro div_qr) simp_all
  then show ?thesis using False q_def by simp
qed

lemma days_before_year_Suc:
  "days_before_year (y + 1) = days_before_year y + (if is_leap y then 366 else 365)"
proof -
  define l4 :: int where "l4 = (if y mod 4 = 0 then 1 else 0)"
  define l100 :: int where "l100 = (if y mod 100 = 0 then 1 else 0)"
  define l400 :: int where "l400 = (if y mod 400 = 0 then 1 else 0)"
  have 4: "y div 4 = (y - 1) div 4 + l4" using div_step[of 4 y] unfolding l4_def by simp
  have 100: "y div 100 = (y - 1) div 100 + l100" using div_step[of 100 y] unfolding l100_def by simp
  have 400: "y div 400 = (y - 1) div 400 + l400" using div_step[of 400 y] unfolding l400_def by simp
  have a: "y mod 100 = 0 \<Longrightarrow> y mod 4 = 0"
    using dvd_trans[of 4 100 y] by (simp add: mod_eq_0_iff_dvd)
  have b: "y mod 400 = 0 \<Longrightarrow> y mod 100 = 0"
    using dvd_trans[of 100 400 y] by (simp add: mod_eq_0_iff_dvd)
  have l: "l4 - l100 + l400 = (if is_leap y then 1 else 0)"
    unfolding l4_def l100_def l400_def is_leap_def using a b by (cases "y mod 4 = 0"; cases "y mod 100 = 0"; cases "y mod 400 = 0"; simp)
  have "days_before_year (y + 1) = y * 365 + y div 4 - y div 100 + y div 400"
    unfolding days_before_year_def by simp
  also have "\<dots> = days_before_year y + 365 + (l4 - l100 + l400)"
    unfolding days_before_year_def 4 100 400 by (simp add: algebra_simps)
  finally show ?thesis unfolding l by simp
qed

lemma days_before_year_mono_aux: "days_before_year y + 365 * int k \<le> days_before_year (y + int k)"
proof (induction k)
  case 0 show ?case by simp
next
  case (Suc k)
  have "days_before_year (y + int (Suc k)) = days_before_year ((y + int k) + 1)" by (simp add: algebra_simps)
  also have "\<dots> \<ge> days_before_year (y + int k) + 365" unfolding days_before_year_Suc by simp
  finally show ?case using Suc by simp
qed

lemma days_before_year_mono: "y \<le> y' \<Longrightarrow> days_before_year y \<le> days_before_year y'"
  using days_before_year_mono_aux[of y "nat (y' - y)"] by simp

lemma days_before_month_next:
  assumes "1 \<le> m" "m < 12"
  shows "days_before_month y m + days_in_month y m = days_before_month y (m + 1)"
proof -
  from assms have "m = 1 \<or> m = 2 \<or> m = 3 \<or> m = 4 \<or> m = 5 \<or> m = 6 \<or> m = 7 \<or> m = 8 \<or> m = 9
    \<or> m = 10 \<or> m = 11" by arith
  then show ?thesis
    by (elim disjE) (simp_all add: days_before_month_def days_in_month_def DAYS_IN_MONTH_def DAYS_BEFORE_MONTH_def)
qed

lemma days_in_month_pos: "1 \<le> m \<Longrightarrow> m \<le> 12 \<Longrightarrow> 28 \<le> days_in_month y m"
proof -
  assume "1 \<le> m" "m \<le> 12"
  then have "m = 1 \<or> m = 2 \<or> m = 3 \<or> m = 4 \<or> m = 5 \<or> m = 6 \<or> m = 7 \<or> m = 8 \<or> m = 9
    \<or> m = 10 \<or> m = 11 \<or> m = 12" by arith
  then show ?thesis
    by (elim disjE) (simp_all add: days_in_month_def DAYS_IN_MONTH_def)
qed

lemma days_before_month_mono_aux:
  "1 \<le> m \<Longrightarrow> m + int k \<le> 12 \<Longrightarrow> days_before_month y m + 28 * int k \<le> days_before_month y (m + int k)"
proof (induction k)
  case 0 show ?case by simp
next
  case (Suc k)
  then have ih: "days_before_month y m + 28 * int k \<le> days_before_month y (m + int k)" by simp
  have "days_before_month y (m + int k) + days_in_month y (m + int k) = days_before_month y (m + int k + 1)"
    using Suc.prems by (intro days_before_month_next) simp_all
  moreover have "28 \<le> days_in_month y (m + int k)" using Suc.prems by (intro days_in_month_pos) simp_all
  ultimately show ?case using ih by (simp add: algebra_simps)
qed

lemma days_before_month_last: "days_before_month y 12 + days_in_month y 12 = (if is_leap y then 366 else 365)"
  by (simp add: days_before_month_def days_in_month_def DAYS_IN_MONTH_def DAYS_BEFORE_MONTH_def)

lemma days_before_month_nonneg: "1 \<le> m \<Longrightarrow> m \<le> 12 \<Longrightarrow> 0 \<le> days_before_month y m"
  using days_before_month_mono_aux[of 1 "nat (m - 1)" y]
  by (simp add: days_before_month_def DAYS_BEFORE_MONTH_def)

lemma year_end: 
  assumes "1 \<le> m" "m \<le> 12" "d \<le> days_in_month y m"
  shows "ymd2ord y m d \<le> days_before_year (y + 1)"
proof -
  have "days_before_month y m + days_in_month y m \<le> days_before_month y 12 + days_in_month y 12"
  proof (cases "m = 12")
    case True then show ?thesis by simp
  next
    case False
    then have "days_before_month y m + days_in_month y m = days_before_month y (m + 1)"
      using assms by (intro days_before_month_next) simp_all
    also have "\<dots> \<le> days_before_month y 12"
      using days_before_month_mono_aux[of "m + 1" "nat (11 - m)" y] assms False by simp
    also have "\<dots> \<le> days_before_month y 12 + days_in_month y 12"
      using days_in_month_pos[of 12 y] by simp
    finally show ?thesis .
  qed
  then show ?thesis unfolding ymd2ord_def days_before_year_Suc days_before_month_last using assms(3)
    by (simp split: if_splits)
qed

lemma ymd2ord_strict_mono:
  assumes v: "1 \<le> m" "m \<le> 12" "d \<le> days_in_month y m"
      and v': "1 \<le> m'" "m' \<le> 12" "1 \<le> d'"
      and lt: "y * 12 + m < y' * 12 + m'"
  shows "ymd2ord y m d < ymd2ord y' m' d'"
proof (cases "y < y'")
  case True
  have "ymd2ord y m d \<le> days_before_year (y + 1)" by (rule year_end[OF v])
  also have "\<dots> \<le> days_before_year y'" using True by (intro days_before_year_mono) simp
  also have "\<dots> < ymd2ord y' m' d'" unfolding ymd2ord_def using days_before_month_nonneg[OF v'(1,2), of y'] v'(3) by simp
  finally show ?thesis .
next
  case False
  then have e: "y' = y" and m: "m < m'" using lt v v' by linarith+
  have "days_before_month y m + days_in_month y m = days_before_month y (m + 1)"
    using v m v' by (intro days_before_month_next) simp_all
  also have "\<dots> \<le> days_before_month y m'"
    using days_before_month_mono_aux[of "m + 1" "nat (m' - m - 1)" y] v v' m by simp
  finally show ?thesis unfolding ymd2ord_def e using v(3) v'(3) by simp
qed

lemma valid_date_ordinal:
  assumes "valid_date d"
  shows "1 \<le> toordinal d" "toordinal d \<le> MAXORDINAL"
proof -
  have v: "1 \<le> year d" "year d \<le> 9999" "1 \<le> month d" "month d \<le> 12" "1 \<le> day d"
    "day d \<le> days_in_month (year d) (month d)"
    using assms by (simp_all add: valid_date_def MINYEAR_def MAXYEAR_def)
  have "days_before_year 1 \<le> days_before_year (year d)" using v by (intro days_before_year_mono)
  then have "0 \<le> days_before_year (year d)" by (simp add: days_before_year_def)
  then show "1 \<le> toordinal d" unfolding toordinal_def ymd2ord_def
    using days_before_month_nonneg[OF v(3,4), of "year d"] v(5) by linarith
  have "toordinal d \<le> days_before_year (year d + 1)" unfolding toordinal_def by (rule year_end[OF v(3,4,6)])
  also have "\<dots> \<le> days_before_year 10000" using v by (intro days_before_year_mono) simp
  also have "\<dots> = MAXORDINAL" by (simp add: days_before_year_def MAXORDINAL_def)
  finally show "toordinal d \<le> MAXORDINAL" .
qed

lemma ord2ymd_valid:
  assumes "1 \<le> n" "n \<le> MAXORDINAL"
  shows "valid_date (ord2ymd n)" "toordinal (ord2ymd n) = n"
  using ord2ymd_roundtrip[OF assms(1)] assms(2)
  by (simp_all add: valid_date_def toordinal_def MINYEAR_def)

section \<open>The bounds of the window\<close>

lemma month_delta_index:
  assumes "month_delta d n = Inr d'"
  shows "year d' * 12 + month d' = year d * 12 + month d + n"
proof -
  have "year d' * 12 + month d' = year d * 12 + (12 * ((month d - 1 + n) div 12) + (month d - 1 + n) mod 12) + 1"
    unfolding month_delta_Inr(1,2)[OF assms] by (simp add: algebra_simps)
  then show ?thesis by simp
qed

lemma month_delta_ordinal_less:
  assumes s: "month_delta now (- a) = Inr s" and t: "month_delta now (- b) = Inr t" and "b < a"
  shows "toordinal s < toordinal t"
proof -
  have vs: "valid_date s" and vt: "valid_date t" using month_delta_Inr(4) s t by blast+
  have "year s * 12 + month s < year t * 12 + month t"
    using month_delta_index[OF s] month_delta_index[OF t] assms(3) by simp
  then show ?thesis unfolding toordinal_def
    using vs vt by (intro ymd2ord_strict_mono) (simp_all add: valid_date_def)
qed

lemma toordinal_replace_midnight [simp]: "toordinal (replace_midnight d) = toordinal d"
  by (simp add: toordinal_def replace_midnight_def)


lemma add_days_Inr:
  assumes "add_days d k = Inr d'"
  shows "toordinal d' = toordinal d + k" "hour d' = hour d" "minute d' = minute d"
    "second d' = second d" "microsecond d' = microsecond d" "valid_date d'"
proof -
  let ?n = "toordinal d + k"
  have r: "1 \<le> ?n" "?n \<le> MAXORDINAL"
    and e: "d' = d\<lparr>year := year (ord2ymd ?n), month := month (ord2ymd ?n), day := day (ord2ymd ?n)\<rparr>"
    using assms unfolding add_days_def Let_def by (auto split: if_splits)
  have "toordinal d' = toordinal (ord2ymd ?n)" unfolding e toordinal_def by simp
  then show "toordinal d' = ?n" using ord2ymd_valid(2)[OF r] by simp
  show "hour d' = hour d" "minute d' = minute d" "second d' = second d" "microsecond d' = microsecond d"
    unfolding e by simp_all
  show "valid_date d'" using ord2ymd_valid(1)[OF r] unfolding e valid_date_def by simp
qed

lemma to_unix_whole:
  assumes "timestamp_us d = k * 1000000"
  shows "to_unix d = k"
proof -
  have "- (k * 1000000) div 1000000 = - k"
    using div_qr[of 0 1000000 "- k"] by simp
  then show ?thesis unfolding to_unix_def Let_def assms by simp
qed

lemma to_unix_midnight: "to_unix (replace_midnight d) = midnight_epoch d"
proof -
  have "timestamp_us (replace_midnight d) = ((toordinal d - 719163) * 86400) * 1000000"
    unfolding timestamp_us_def by (simp add: replace_midnight_def toordinal_def)
  then show ?thesis unfolding midnight_epoch_def by (rule to_unix_whole)
qed

lemma to_unix_add_day_midnight:
  assumes "add_days (replace_midnight t) 1 = Inr x"
  shows "to_unix x = midnight_epoch t + 86400"
proof -
  note f = add_days_Inr[OF assms]
  have "timestamp_us x = ((toordinal t + 1 - 719163) * 86400) * 1000000"
    unfolding timestamp_us_def f by (simp add: replace_midnight_def toordinal_def)
  then have "to_unix x = (toordinal t + 1 - 719163) * 86400" by (rule to_unix_whole)
  then show ?thesis unfolding midnight_epoch_def by (simp add: algebra_simps)
qed

lemma compute_window_Inr:
  assumes "compute_window now a b = Inr w"
  shows "\<exists>s t. month_delta now (- a) = Inr s \<and> month_delta now (- b) = Inr t
           \<and> start_dt w = replace_midnight s \<and> end_dt w = replace_midnight t
           \<and> fromdate_of w = midnight_epoch s \<and> todate_of w = midnight_epoch t + 86400"
proof -
  obtain s where s: "month_delta now (- a) = Inr s"
    using assms unfolding compute_window_def by (cases "month_delta now (- a)") simp_all
  obtain t where t: "month_delta now (- b) = Inr t"
    using assms s unfolding compute_window_def by (cases "month_delta now (- b)") simp_all
  obtain x where x: "add_days (replace_midnight t) 1 = Inr x"
    using assms s t unfolding compute_window_def by (cases "add_days (replace_midnight t) 1") simp_all
  have w: "w = \<lparr>start_dt = replace_midnight s, end_dt = replace_midnight t,
             fromdate_of = to_unix (replace_midnight s), todate_of = to_unix x\<rparr>"
    using assms s t x unfolding compute_window_def by simp
  show ?thesis using s t w to_unix_midnight[of s] to_unix_add_day_midnight[OF x] by simp
qed

lemma compute_window_starting_Inr:
  assumes "compute_window_starting now = Inr w"
  shows "\<exists>s t. month_delta now (- 6) = Inr s \<and> month_delta now (- 2) = Inr t
           \<and> start_dt w = s \<and> end_dt w = t
           \<and> fromdate_of w = to_unix s \<and> todate_of w = to_unix t"
proof -
  obtain s where s: "month_delta now (- 6) = Inr s"
    using assms unfolding compute_window_starting_def by (cases "month_delta now (- 6)") simp_all
  obtain t where t: "month_delta now (- 2) = Inr t"
    using assms s unfolding compute_window_starting_def by (cases "month_delta now (- 2)") simp_all
  show ?thesis using assms s t unfolding compute_window_starting_def by auto
qed

lemma to_unix_bounds:
  "to_unix d * 1000000 \<le> timestamp_us d + 999999" "timestamp_us d - 999999 \<le> to_unix d * 1000000"
proof -
  define u where "u = timestamp_us d"
  have a: "(u div 1000000) * 1000000 \<le> u" "u < (u div 1000000) * 1000000 + 1000000"
    using div_mult_mod_eq[of u 1000000] pos_mod_sign[of 1000000 u] pos_mod_bound[of 1000000 u]
    by linarith+
  have b: "((- u) div 1000000) * 1000000 \<le> - u" "- u < ((- u) div 1000000) * 1000000 + 1000000"
    using div_mult_mod_eq[of "- u" 1000000] pos_mod_sign[of 1000000 "- u"] pos_mod_bound[of 1000000 "- u"]
    by linarith+
  show "to_unix d * 1000000 \<le> timestamp_us d + 999999" "timestamp_us d - 999999 \<le> to_unix d * 1000000"
    unfolding to_unix_def Let_def u_def[symmetric] using a b by (auto split: if_splits)
qed

lemma month_delta_time:
  assumes "month_delta d n = Inr d'"
  shows "hour d' = hour d" "minute d' = minute d" "second d' = second d" "microsecond d' = microsecond d"
  by (subst month_delta_Inr(5)[OF assms], simp)+

text \<open>
  Claim C4. In \<^verbatim>\<open>fetch_data.py\<close>, for every current instant and all integer offsets with
  \<open>months_from > months_to\<close>, a window that is computed (no shifted year leaves 1..9999)
  has \<open>fromdate < todate\<close>. In \<^verbatim>\<open>starting_fetch_data.py\<close> the offsets are 6 and 2 and the
  same holds.
\<close>

theorem window_start_before_end:
  "(months_to < months_from \<longrightarrow> compute_window now months_from months_to = Inr w
      \<longrightarrow> fromdate_of w < todate_of w)
   \<and> (compute_window_starting now = Inr w' \<longrightarrow> fromdate_of w' < todate_of w')"
proof (intro conjI impI)
  assume lt: "months_to < months_from" and w: "compute_window now months_from months_to = Inr w"
  from compute_window_Inr[OF w] obtain s t where
    s: "month_delta now (- months_from) = Inr s" and t: "month_delta now (- months_to) = Inr t"
    and f: "fromdate_of w = midnight_epoch s" "todate_of w = midnight_epoch t + 86400" by blast
  have "toordinal s < toordinal t" by (rule month_delta_ordinal_less[OF s t lt])
  then show "fromdate_of w < todate_of w" unfolding f midnight_epoch_def by simp
next
  assume w: "compute_window_starting now = Inr w'"
  from compute_window_starting_Inr[OF w] obtain s t where
    s: "month_delta now (- 6) = Inr s" and t: "month_delta now (- 2) = Inr t"
    and f: "fromdate_of w' = to_unix s" "todate_of w' = to_unix t" by blast
  have "toordinal s < toordinal t" by (rule month_delta_ordinal_less[OF s t]) simp
  then have "toordinal s + 1 \<le> toordinal t" by simp
  then have "(toordinal s - 719163) * 86400 + 86400 \<le> (toordinal t - 719163) * 86400" by simp
  then have "timestamp_us s + 86400000000 \<le> timestamp_us t"
    unfolding timestamp_us_def month_delta_time[OF s] month_delta_time[OF t] by simp
  then show "fromdate_of w' < todate_of w'"
    unfolding f using to_unix_bounds(1)[of s] to_unix_bounds(2)[of t] by linarith
qed


definition july_15 :: datetime where
  "july_15 = \<lparr>year = 2024, month = 7, day = 15, hour = 12, minute = 30, second = 45,
     microsecond = 0\<rparr>"

definition july_15_window :: window where
  "july_15_window =
     \<lparr>start_dt = july_15\<lparr>month := 1, hour := 0, minute := 0, second := 0\<rparr>,
      end_dt = july_15\<lparr>month := 5, hour := 0, minute := 0, second := 0\<rparr>,
      fromdate_of = 1705276800, todate_of = 1715817600\<rparr>"

definition july_15_window_starting :: window where
  "july_15_window_starting =
     \<lparr>start_dt = july_15\<lparr>month := 1\<rparr>, end_dt = july_15\<lparr>month := 5\<rparr>,
      fromdate_of = 1705321845, todate_of = 1715776245\<rparr>"

lemma july_15_windows:
  "compute_window july_15 6 2 = Inr july_15_window"
  "compute_window_starting july_15 = Inr july_15_window_starting"
  by code_simp+

theorem window_start_before_end_witness:
  "(2::int) < 6 \<and> compute_window july_15 6 2 = Inr july_15_window
   \<and> fromdate_of july_15_window < todate_of july_15_window
   \<and> compute_window_starting july_15 = Inr july_15_window_starting
   \<and> fromdate_of july_15_window_starting < todate_of july_15_window_starting"
  using window_start_before_end[of 2 6 july_15 july_15_window july_15_window_starting]
    july_15_windows by simp

text \<open>
  Claim C5, as amended. In \<^verbatim>\<open>fetch_data.py\<close> the lower bound is midnight UTC of the
  month-shifted start date and the upper bound is midnight UTC of the day after the
  month-shifted end date. In \<^verbatim>\<open>starting_fetch_data.py\<close> the bounds are the epoch seconds
  of the two month-shifted instants themselves, which keep the time of day of the current
  instant: nothing is cut to midnight and no day is added.
\<close>

theorem window_bounds:
  "(compute_window now months_from months_to = Inr w \<longrightarrow>
      (\<exists>s t. month_delta now (- months_from) = Inr s \<and> month_delta now (- months_to) = Inr t
         \<and> start_dt w = replace_midnight s \<and> end_dt w = replace_midnight t
         \<and> fromdate_of w = midnight_epoch s \<and> todate_of w = midnight_epoch t + 86400))
   \<and> (compute_window_starting now = Inr w' \<longrightarrow>
      (\<exists>s t. month_delta now (- 6) = Inr s \<and> month_delta now (- 2) = Inr t
         \<and> start_dt w' = s \<and> end_dt w' = t
         \<and> fromdate_of w' = to_unix s \<and> todate_of w' = to_unix t
         \<and> hour s = hour now \<and> minute s = minute now \<and> second s = second now
         \<and> microsecond s = microsecond now
         \<and> hour t = hour now \<and> minute t = minute now \<and> second t = second now
         \<and> microsecond t = microsecond now))"
proof (intro conjI impI)
  assume "compute_window now months_from months_to = Inr w"
  then show "\<exists>s t. month_delta now (- months_from) = Inr s \<and> month_delta now (- months_to) = Inr t
         \<and> start_dt w = replace_midnight s \<and> end_dt w = replace_midnight t
         \<and> fromdate_of w = midnight_epoch s \<and> todate_of w = midnight_epoch t + 86400"
    by (rule compute_window_Inr)
next
  assume "compute_window_starting now = Inr w'"
  from compute_window_starting_Inr[OF this] obtain s t where
    s: "month_delta now (- 6) = Inr s" and t: "month_delta now (- 2) = Inr t"
    and f: "start_dt w' = s" "end_dt w' = t" "fromdate_of w' = to_unix s" "todate_of w' = to_unix t"
    by blast
  show "\<exists>s t. month_delta now (- 6) = Inr s \<and> month_delta now (- 2) = Inr t
         \<and> start_dt w' = s \<and> end_dt w' = t
         \<and> fromdate_of w' = to_unix s \<and> todate_of w' = to_unix t
         \<and> hour s = hour now \<and> minute s = minute now \<and> second s = second now
         \<and> microsecond s = microsecond now
         \<and> hour t = hour now \<and> minute t = minute now \<and> second t = second now
         \<and> microsecond t = microsecond now"
    using s t f month_delta_time[OF s] month_delta_time[OF t] by blast
qed

theorem window_bounds_witness:
  "compute_window july_15 6 2 = Inr july_15_window
   \<and> compute_window_starting july_15 = Inr july_15_window_starting
   \<and> (\<exists>s t. month_delta july_15 (- 6) = Inr s \<and> month_delta july_15 (- 2) = Inr t
         \<and> fromdate_of july_15_window = midnight_epoch s
         \<and> todate_of july_15_window = midnight_epoch t + 86400
         \<and> fromdate_of july_15_window_starting = to_unix s
         \<and> todate_of july_15_window_starting = to_unix t)"
proof -
  from window_bounds[of july_15 6 2 july_15_window july_15_window_starting] july_15_windows
  obtain s t s' t' where
    a: "month_delta july_15 (- 6) = Inr s" "month_delta july_15 (- 2) = Inr t"
       "fromdate_of july_15_window = midnight_epoch s"
       "todate_of july_15_window = midnight_epoch t + 86400"
    and b: "month_delta july_15 (- 6) = Inr s'" "month_delta july_15 (- 2) = Inr t'"
       "fromdate_of july_15_window_starting = to_unix s'"
       "todate_of july_15_window_starting = to_unix t'"
    by blast
  from a(1,2) b(1,2) have "s' = s" "t' = t" by simp_all
  with a b july_15_windows show ?thesis by blast
qed

text \<open>
  The claim as stated fails on \<^verbatim>\<open>starting_fetch_data.py\<close>: at 2024-07-15T12:30:45Z its
  lower bound is 12:30:45 of 2024-01-15, not midnight, and its upper bound is 12:30:45 of
  2024-05-15, not midnight of 2024-05-16.
\<close>

theorem window_bounds_starting_counterexample:
  "compute_window_starting july_15 = Inr july_15_window_starting
   \<and> fromdate_of july_15_window_starting \<noteq> midnight_epoch (start_dt july_15_window_starting)
   \<and> todate_of july_15_window_starting \<noteq> midnight_epoch (end_dt july_15_window_starting) + 86400"
  by code_simp

section \<open>Week buckets\<close>

text \<open>The shape \<^verbatim>\<open>YYYY-MM-DD\<close>: ten characters, digits but for the two hyphens.\<close>

definition iso_form :: "string \<Rightarrow> bool" where
  "iso_form s =
     (length s = 10 \<and> s ! 4 = CHR ''-'' \<and> s ! 7 = CHR ''-''
      \<and> (\<forall>i \<in> {0, 1, 2, 3, 5, 6, 8, 9}. s ! i \<in> set ''0123456789''))"

lemma digit_char_digit: "n < 10 \<Longrightarrow> digit_char n \<in> set ''0123456789''"
  unfolding digit_char_def by (intro nth_mem) simp

lemma digits_chars: "set (digits n) \<subseteq> set ''0123456789''"
proof (induction n rule: digits.induct)
  case (1 n)
  show ?case
  proof (cases "n < 10")
    case True
    then show ?thesis using digit_char_digit[of n] by (subst digits.simps) simp
  next
    case False
    have "n mod 10 < 10" by simp
    then have "digit_char (n mod 10) \<in> set ''0123456789''" by (rule digit_char_digit)
    then show ?thesis using 1[OF False] False by (subst digits.simps) simp
  qed
qed

lemma digits_length: "n < 10 ^ k \<Longrightarrow> 0 < k \<Longrightarrow> length (digits n) \<le> k"
proof (induction n arbitrary: k rule: digits.induct)
  case (1 n)
  show ?case
  proof (cases "n < 10")
    case True
    then show ?thesis using 1(3) by (subst digits.simps) simp
  next
    case False
    obtain j where k: "k = Suc j" using 1(3) by (cases k) simp_all
    have j: "0 < j" using False 1(2) k by (cases j) simp_all
    have "n div 10 < 10 ^ j" using 1(2) k by (simp add: less_mult_imp_div_less mult.commute)
    then have "length (digits (n div 10)) \<le> j" using 1(1)[OF False _ j] by simp
    then show ?thesis using False k by (subst digits.simps) simp
  qed
qed

lemma digits_nonempty: "digits n \<noteq> []"
  by (subst digits.simps) simp

lemma zero_padded_form:
  assumes "0 \<le> i" "i < 10 ^ w" "0 < w"
  shows "length (zero_padded w i) = w" "set (zero_padded w i) \<subseteq> set ''0123456789''"
proof -
  have "nat i < 10 ^ w" using assms by (simp add: nat_less_iff)
  then have l: "length (digits (nat i)) \<le> w" using assms(3) by (rule digits_length)
  show "length (zero_padded w i) = w" using assms(1) l by (simp add: zero_padded_def)
  show "set (zero_padded w i) \<subseteq> set ''0123456789''"
    using assms(1) digits_chars[of "nat i"] by (auto simp: zero_padded_def)
qed

lemma days_in_month_le_31: "1 \<le> m \<Longrightarrow> m \<le> 12 \<Longrightarrow> days_in_month y m \<le> 31"
proof -
  assume "1 \<le> m" "m \<le> 12"
  then have "m = 1 \<or> m = 2 \<or> m = 3 \<or> m = 4 \<or> m = 5 \<or> m = 6 \<or> m = 7 \<or> m = 8 \<or> m = 9
    \<or> m = 10 \<or> m = 11 \<or> m = 12" by arith
  then show ?thesis
    by (elim disjE) (simp_all add: days_in_month_def DAYS_IN_MONTH_def)
qed

lemma isoformat_form:
  assumes "valid_date d"
  shows "iso_form (isoformat d)"
proof -
  have v: "1 \<le> year d" "year d \<le> 9999" "1 \<le> month d" "month d \<le> 12" "1 \<le> day d"
    "day d \<le> days_in_month (year d) (month d)"
    using assms by (simp_all add: valid_date_def MINYEAR_def MAXYEAR_def)
  have d31: "day d \<le> 31" using v(6) days_in_month_le_31[OF v(3,4), of "year d"] by simp
  define a where "a = zero_padded 4 (year d)"
  define b where "b = zero_padded 2 (month d)"
  define c where "c = zero_padded 2 (day d)"
  have a: "length a = 4" "set a \<subseteq> set ''0123456789''"
    unfolding a_def using v by (intro zero_padded_form; simp)+
  have b: "length b = 2" "set b \<subseteq> set ''0123456789''"
    unfolding b_def using v by (intro zero_padded_form; simp)+
  have c: "length c = 2" "set c \<subseteq> set ''0123456789''"
    unfolding c_def using v d31 by (intro zero_padded_form; simp)+
  obtain a0 a1 a2 a3 where a': "a = [a0, a1, a2, a3]"
    using a(1) by (auto simp: length_Suc_conv numeral_eq_Suc)
  obtain b0 b1 where b': "b = [b0, b1]"
    using b(1) by (auto simp: length_Suc_conv numeral_eq_Suc)
  obtain c0 c1 where c': "c = [c0, c1]"
    using c(1) by (auto simp: length_Suc_conv numeral_eq_Suc)
  have e: "isoformat d = [a0, a1, a2, a3, CHR ''-'', b0, b1, CHR ''-'', c0, c1]"
    unfolding isoformat_def a_def[symmetric] b_def[symmetric] c_def[symmetric] a' b' c' by simp
  show ?thesis unfolding iso_form_def e using a(2) b(2) c(2) unfolding a' b' c'
    by (simp add: numeral_eq_Suc)
qed

lemma fromtimestamp_Inr:
  assumes "fromtimestamp ts = Inr c"
  shows "valid_date (date_of c)" "toordinal (date_of c) = 719163 + ts div 86400"
proof -
  let ?n = "719163 + ts div 86400"
  have r: "1 \<le> ?n" "?n \<le> MAXORDINAL" and
    e: "date_of c = ord2ymd ?n"
    using assms unfolding fromtimestamp_def Let_def date_of_def by (auto split: if_splits)
  show "valid_date (date_of c)" unfolding e by (rule ord2ymd_valid(1)[OF r])
  show "toordinal (date_of c) = ?n" unfolding e by (rule ord2ymd_valid(2)[OF r])
qed

lemma monday_ordinal:
  assumes "1 \<le> (n::int)"
  shows "1 \<le> n - (n + 6) mod 7" "n - (n + 6) mod 7 \<le> n" "(n - (n + 6) mod 7 + 6) mod 7 = 0"
proof -
  define q where "q = (n + 6) div 7"
  define r where "r = (n + 6) mod 7"
  have n: "n + 6 = 7 * q + r" unfolding q_def r_def by simp
  have r: "0 \<le> r" "r < 7" unfolding r_def by simp_all
  have "1 \<le> q" using n r assms by linarith
  then show "1 \<le> n - (n + 6) mod 7" unfolding r_def[symmetric] using n by linarith
  show "n - (n + 6) mod 7 \<le> n" using r unfolding r_def by simp
  have "n - r + 6 = 7 * q" using n by linarith
  then show "(n - (n + 6) mod 7 + 6) mod 7 = 0" unfolding r_def[symmetric] by simp
qed

lemma week_start_unique:
  assumes "(M + 6) mod 7 = 0" "M \<le> n" "n \<le> M + (6::int)"
  shows "n - (n + 6) mod 7 = M"
proof -
  obtain q where q: "M + 6 = 7 * q" using assms(1) by (auto simp: mod_eq_0_iff_dvd)
  have e: "n + 6 = 7 * q + (n - M)" using q by linarith
  have "(n + 6) mod 7 = n - M" unfolding e using assms(2,3) by (intro mod_qr) simp_all
  then show ?thesis by linarith
qed

lemma bucket_week:
  assumes "valid_date (date_of c)"
  shows "sub_days (date_of c) (weekday (date_of c)) = Inr (ord2ymd (toordinal (date_of c) - weekday (date_of c)))"
    and "bucket_date c ''week'' = Inr (isoformat (ord2ymd (toordinal (date_of c) - weekday (date_of c))))"
    and "valid_date (ord2ymd (toordinal (date_of c) - weekday (date_of c)))"
    and "toordinal (ord2ymd (toordinal (date_of c) - weekday (date_of c))) = toordinal (date_of c) - weekday (date_of c)"
proof -
  let ?n = "toordinal (date_of c)"
  have n: "1 \<le> ?n" "?n \<le> MAXORDINAL" using valid_date_ordinal[OF assms] by simp_all
  have r: "1 \<le> ?n - weekday (date_of c)" "?n - weekday (date_of c) \<le> MAXORDINAL"
    unfolding weekday_def using monday_ordinal(1,2)[OF n(1)] n(2) by linarith+
  show s: "sub_days (date_of c) (weekday (date_of c)) = Inr (ord2ymd (?n - weekday (date_of c)))"
    unfolding sub_days_def Let_def using r by simp
  show "bucket_date c ''week'' = Inr (isoformat (ord2ymd (?n - weekday (date_of c))))"
    unfolding bucket_date_def s by simp
  show "valid_date (ord2ymd (?n - weekday (date_of c)))" by (rule ord2ymd_valid(1)[OF r])
  show "toordinal (ord2ymd (?n - weekday (date_of c))) = ?n - weekday (date_of c)"
    by (rule ord2ymd_valid(2)[OF r])
qed

text \<open>
  Claim C8. For every timestamp that \<^verbatim>\<open>fromtimestamp\<close> converts (the years 1 to 9999),
  \<^verbatim>\<open>bucket_date\<close> with the week grain returns, and its key is the ISO form of the date
  obtained by subtracting the weekday index (Monday is 0) in days from the creation date;
  that date is a valid date whose weekday index is 0, a Monday, and the key has the shape
  \<^verbatim>\<open>YYYY-MM-DD\<close>. Two timestamps whose dates lie in the seven days that start at the same
  Monday (a day number \<open>M\<close> with weekday index 0) get the same key.
\<close>

theorem week_bucket_is_monday:
  assumes "fromtimestamp t1 = Inr c1" and "fromtimestamp t2 = Inr c2"
  shows "(\<exists>monday. sub_days (date_of c1) (weekday (date_of c1)) = Inr monday
            \<and> bucket_date c1 ''week'' = Inr (isoformat monday)
            \<and> valid_date monday \<and> weekday monday = 0 \<and> iso_form (isoformat monday)
            \<and> toordinal monday = toordinal (date_of c1) - weekday (date_of c1))
     \<and> (\<forall>M. (M + 6) mod 7 = 0
            \<and> M \<le> toordinal (date_of c1) \<and> toordinal (date_of c1) \<le> M + 6
            \<and> M \<le> toordinal (date_of c2) \<and> toordinal (date_of c2) \<le> M + 6
          \<longrightarrow> bucket_date c1 ''week'' = bucket_date c2 ''week'')"
proof (intro conjI allI impI)
  have v1: "valid_date (date_of c1)" by (rule fromtimestamp_Inr(1)[OF assms(1)])
  have v2: "valid_date (date_of c2)" by (rule fromtimestamp_Inr(1)[OF assms(2)])
  note b1 = bucket_week[OF v1]
  note b2 = bucket_week[OF v2]
  let ?m = "ord2ymd (toordinal (date_of c1) - weekday (date_of c1))"
  have "weekday ?m = 0" unfolding weekday_def[of ?m] b1(4) unfolding weekday_def
    using monday_ordinal(3)[of "toordinal (date_of c1)"] valid_date_ordinal(1)[OF v1] by simp
  then show "\<exists>monday. sub_days (date_of c1) (weekday (date_of c1)) = Inr monday
            \<and> bucket_date c1 ''week'' = Inr (isoformat monday)
            \<and> valid_date monday \<and> weekday monday = 0 \<and> iso_form (isoformat monday)
            \<and> toordinal monday = toordinal (date_of c1) - weekday (date_of c1)"
    using b1 isoformat_form[OF b1(3)] by blast
  fix M
  assume M: "(M + 6) mod 7 = 0
            \<and> M \<le> toordinal (date_of c1) \<and> toordinal (date_of c1) \<le> M + 6
            \<and> M \<le> toordinal (date_of c2) \<and> toordinal (date_of c2) \<le> M + 6"
  have "toordinal (date_of c1) - weekday (date_of c1) = M"
    unfolding weekday_def using M by (intro week_start_unique) simp_all
  moreover have "toordinal (date_of c2) - weekday (date_of c2) = M"
    unfolding weekday_def using M by (intro week_start_unique) simp_all
  ultimately show "bucket_date c1 ''week'' = bucket_date c2 ''week''"
    unfolding b1(2) b2(2) by simp
qed


definition wednesday_noon :: datetime where
  "wednesday_noon = \<lparr>year = 2024, month = 7, day = 17, hour = 12, minute = 30, second = 45,
     microsecond = 0\<rparr>"

definition sunday_midnight :: datetime where
  "sunday_midnight = \<lparr>year = 2024, month = 7, day = 21, hour = 0, minute = 0, second = 0,
     microsecond = 0\<rparr>"

theorem week_bucket_is_monday_witness:
  "fromtimestamp 1721219445 = Inr wednesday_noon
   \<and> fromtimestamp 1721520000 = Inr sunday_midnight
   \<and> bucket_date wednesday_noon ''week'' = Inr ''2024-07-15''
   \<and> bucket_date wednesday_noon ''week'' = bucket_date sunday_midnight ''week''"
proof -
  have h1: "fromtimestamp 1721219445 = Inr wednesday_noon" by code_simp
  have h2: "fromtimestamp 1721520000 = Inr sunday_midnight" by code_simp
  have o: "toordinal (date_of wednesday_noon) = 739084" "toordinal (date_of sunday_midnight) = 739088"
    by code_simp+
  have k: "bucket_date wednesday_noon ''week'' = Inr ''2024-07-15''" by code_simp
  note w = week_bucket_is_monday[OF h1 h2, THEN conjunct2, THEN spec, of 739082]
  have "bucket_date wednesday_noon ''week'' = bucket_date sunday_midnight ''week''"
    using w unfolding o by simp
  with h1 h2 k show ?thesis by simp
qed

section \<open>A run to evaluate\<close>

text \<open>
  A server that answers tag \<^verbatim>\<open>python\<close> with two items and then, on page 2, with status
  500, and tag \<^verbatim>\<open>java\<close> with two pages of two and one items, the first with a backoff
  of three seconds.
\<close>

definition question :: "int \<Rightarrow> item" where
  "question ts = \<lparr>creation_date = Some ts\<rparr>"

definition page_of :: "item list \<Rightarrow> bool \<Rightarrow> payload" where
  "page_of its continues =
     \<lparr>quota_remaining = Some 9000, backoff = None, items = Some its, has_more = Some continues\<rparr>"

definition flaky_server :: server where
  "flaky_server k req =
     (case req of Params tag fromdate todate page pagesize \<Rightarrow>
        if tag = ''python'' then
          (if page = 1 then Response 200 [] (page_of [question 1705400000, question 1705400100] True)
           else Response 500 ''internal error'' (page_of [] False))
        else if tag = ''java'' then
          (if page = 1
           then Response 200 [] ((page_of [question 1705400000, question 1708000000] True)\<lparr>backoff := Some 3\<rparr>)
           else Response 200 [] (page_of [question 1708000500] False))
        else Response 200 [] (page_of [] False))"

definition flaky_rows :: "row list" where
  "flaky_rows =
     [(''2024-01-16'', ''java'', 1), (''2024-01-16'', ''python'', 2), (''2024-02-15'', ''java'', 2)]"

definition flaky_log :: "event list" where
  "flaky_log =
     [PrintTag ''python'' \<lparr>year = 2024, month = 1, day = 15\<rparr> \<lparr>year = 2024, month = 5, day = 15\<rparr>,
      PrintError ''HTTP 500 | tag=python | page=2 | body=internal error'',
      PrintStopped ''python'' 2,
      PrintTag ''java'' \<lparr>year = 2024, month = 1, day = 15\<rparr> \<lparr>year = 2024, month = 5, day = 15\<rparr>,
      Sleep 3,
      PrintDone ''java'' 3
        (Some \<lparr>year = 2024, month = 2, day = 15, hour = 12, minute = 35, second = 0, microsecond = 0\<rparr>),
      PrintSaved 3]"

definition flaky_log_starting :: "event list" where
  "flaky_log_starting = [PrintHTTP 500, PrintBody ''internal error'', Sleep 3, PrintSaved 3]"

lemma flaky_run:
  "main flaky_server july_15 [''python'', ''java''] 50 6 2 = Inr (flaky_rows, flaky_log)"
  by code_simp

lemma flaky_run_starting:
  "main_starting flaky_server july_15 [''python'', ''java''] ''day'' 50 = Inr (flaky_rows, flaky_log_starting)"
  by code_simp

section \<open>The rows written\<close>

lemma main_rows:
  assumes "main srv now tags maxp months_from months_to = Inr (rows, log)"
  shows "\<exists>w cs log0. compute_window now months_from months_to = Inr w
          \<and> run_tags srv 0 w maxp tags [] [] = Inr (cs, log0) \<and> rows = write_rows cs
          \<and> log = log0 @ [PrintSaved (length rows)]"
  using assms unfolding main_def by (auto split: sum.splits)

lemma main_starting_rows:
  assumes "main_starting srv now tags grain maxp = Inr (rows, log)"
  shows "\<exists>w cs log0. compute_window_starting now = Inr w
          \<and> run_tags_starting srv 0 w grain maxp tags [] [] = Inr (cs, log0) \<and> rows = write_rows cs
          \<and> log = log0 @ [PrintSaved (length rows)]"
  using assms unfolding main_starting_def by (auto split: sum.splits)

lemma write_rows_sorted: "sorted (map row_key (write_rows cs))"
  unfolding write_rows_def by (rule sorted_sort_key)

lemma sorted_rows_dates:
  assumes "sorted (map row_key rows)" "i < length rows" "j < length rows" "fst (rows ! i) < fst (rows ! j)"
  shows "i < j"
proof (rule ccontr)
  assume "\<not> i < j"
  then have "j \<le> i" by simp
  then have "map row_key rows ! j \<le> map row_key rows ! i"
    using assms(1,2) by (intro sorted_nth_mono) simp_all
  then have "row_key (rows ! j) \<le> row_key (rows ! i)" using assms(2,3) by simp
  then have "fst (rows ! j) \<le> fst (rows ! i)"
    unfolding row_key_def by (auto simp: less_eq_prod_def)
  then show False using assms(4) by simp
qed

text \<open>
  Claim C9. The rows written are the entries of the count table, sorted ascending by the
  pair (date, tag) compared lexicographically, strings compared character by character:
  a row whose date string is smaller stands before every row whose date string is larger,
  whatever the tags. Both scripts write their rows this way.
\<close>

theorem rows_sorted_by_date_then_tag:
  "sorted (map row_key (write_rows cs))
   \<and> set (write_rows cs) = (\<lambda>((d, tag), cnt). (d, tag, cnt)) ` set cs
   \<and> (\<forall>i j. i < length (write_rows cs) \<and> j < length (write_rows cs)
          \<and> fst (write_rows cs ! i) < fst (write_rows cs ! j) \<longrightarrow> i < j)
   \<and> (main srv now tags maxp months_from months_to = Inr (rows, log)
        \<longrightarrow> sorted (map row_key rows))
   \<and> (main_starting srv now tags grain maxp = Inr (rows', log')
        \<longrightarrow> sorted (map row_key rows'))"
proof (intro conjI allI impI)
  show "sorted (map row_key (write_rows cs))" by (rule write_rows_sorted)
  show "set (write_rows cs) = (\<lambda>((d, tag), cnt). (d, tag, cnt)) ` set cs"
    unfolding write_rows_def by simp
next
  fix i j
  assume "i < length (write_rows cs) \<and> j < length (write_rows cs)
          \<and> fst (write_rows cs ! i) < fst (write_rows cs ! j)"
  then show "i < j" using sorted_rows_dates[OF write_rows_sorted] by blast
next
  assume "main srv now tags maxp months_from months_to = Inr (rows, log)"
  from main_rows[OF this] show "sorted (map row_key rows)" using write_rows_sorted by blast
next
  assume "main_starting srv now tags grain maxp = Inr (rows', log')"
  from main_starting_rows[OF this] show "sorted (map row_key rows')" using write_rows_sorted by blast
qed


theorem rows_sorted_by_date_then_tag_witness:
  "main flaky_server july_15 [''python'', ''java''] 50 6 2 = Inr (flaky_rows, flaky_log)
   \<and> main_starting flaky_server july_15 [''python'', ''java''] ''day'' 50 = Inr (flaky_rows, flaky_log_starting)
   \<and> sorted (map row_key flaky_rows)
   \<and> sorted (map row_key (write_rows [((''2024-03-02'', ''go''), 3), ((''2024-03-01'', ''go''), 5)]))
   \<and> write_rows [((''2024-03-02'', ''go''), 3), ((''2024-03-01'', ''go''), 5)]
       = [(''2024-03-01'', ''go'', 5), (''2024-03-02'', ''go'', 3)]"
proof -
  note t = rows_sorted_by_date_then_tag[of "[((''2024-03-02'', ''go''), 3), ((''2024-03-01'', ''go''), 5)]"
      flaky_server july_15 "[''python'', ''java'']" 50 6 2 flaky_rows flaky_log "''day''"
      flaky_rows flaky_log_starting]
  have e: "write_rows [((''2024-03-02'', ''go''), 3), ((''2024-03-01'', ''go''), 5)]
       = [(''2024-03-01'', ''go'', 5), (''2024-03-02'', ''go'', 3)]"
    by code_simp
  from t flaky_run have "sorted (map row_key flaky_rows)" by blast
  moreover from t have
    "sorted (map row_key (write_rows [((''2024-03-02'', ''go''), 3), ((''2024-03-01'', ''go''), 5)]))"
    by blast
  ultimately show ?thesis using flaky_run flaky_run_starting e by blast
qed

section \<open>Counts and yielded items\<close>

lemma count_of_incr: "count_of (incr key cs) key' = count_of cs key' + (if key' = key then 1 else 0)"
  by (induction cs) (auto simp: count_of_def)

lemma table_total_incr: "table_total t (incr key cs) = table_total t cs + (if snd key = t then 1 else 0)"
  by (induction cs) (auto simp: table_total_def)

lemma fromtimestamp_error: "fromtimestamp ts = Inl e \<Longrightarrow> e = ValueError"
  unfolding fromtimestamp_def Let_def by (auto split: if_splits)

lemma count_items_error:
  "count_items tag qs p = (p', Some e) \<Longrightarrow> e = KeyError \<or> e = ValueError"
proof (induction qs arbitrary: p)
  case Nil then show ?case by simp
next
  case (Cons q qs)
  then show ?case
    by (auto split: option.splits sum.splits dest: fromtimestamp_error)
qed

lemma count_items_total:
  assumes "count_items tag qs p = (p', None)"
  shows "table_total t (counts p') = table_total t (counts p) + (if tag = t then length qs else 0)"
    and "fetched p' = fetched p + length qs"
  using assms
proof (induction qs arbitrary: p)
  case Nil
  { case 1 then show ?case by simp }
  { case 2 then show ?case by simp }
next
  case (Cons q qs)
  { case 1
    then show ?case using Cons.IH(1)
      by (auto split: option.splits sum.splits simp: table_total_incr) }
  { case 2
    then show ?case using Cons.IH(2)
      by (auto split: option.splits sum.splits) }
qed

lemma count_items_starting_total:
  assumes "count_items_starting grain tag qs cs = (cs', None)"
  shows "table_total t cs' = table_total t cs + (if tag = t then length qs else 0)"
  using assms
proof (induction qs arbitrary: cs)
  case Nil then show ?case by simp
next
  case (Cons q qs)
  then show ?case
    by (auto split: option.splits sum.splits simp: table_total_incr)
qed

lemma run_tags_total:
  assumes "run_tags srv k w maxp tags cs log = Inr (cs', log')"
  shows "table_total t cs' = table_total t cs + yielded_total srv k w maxp tags t"
  using assms
proof (induction tags arbitrary: k cs log)
  case Nil then show ?case by simp
next
  case (Cons tag tags)
  define s where "s = fetch_questions srv k tag (fromdate_of w) (todate_of w) 100 maxp"
  obtain p exc where c: "count_items tag (yielded s) \<lparr>counts = cs, last_created = None, fetched = 0\<rparr> = (p, exc)"
    by (cases "count_items tag (yielded s) \<lparr>counts = cs, last_created = None, fetched = 0\<rparr>")
  have exc: "exc = None"
  proof (cases exc)
    case None then show ?thesis .
  next
    case (Some e)
    from count_items_error[OF c[unfolded Some]] have "e = KeyError \<or> e = ValueError" .
    then show ?thesis using Cons.prems c Some by (auto simp: Let_def s_def[symmetric])
  qed
  from count_items_total(1)[OF c[unfolded exc], of t]
  have t1: "table_total t (counts p) = table_total t cs + (if tag = t then length (yielded s) else 0)" by simp
  obtain lg where "run_tags srv (requests s) w maxp tags (counts p) lg = Inr (cs', log')"
    using Cons.prems c exc unfolding s_def[symmetric]
    by (auto simp: Let_def s_def[symmetric] split: option.splits error.splits)
  from Cons.IH[OF this] show ?case using t1 by (simp add: Let_def s_def[symmetric])
qed

lemma run_tags_starting_total:
  assumes "run_tags_starting srv k w grain maxp tags cs log = Inr (cs', log')"
  shows "table_total t cs' = table_total t cs + yielded_total_starting srv k w maxp tags t"
  using assms
proof (induction tags arbitrary: k cs log)
  case Nil then show ?case by simp
next
  case (Cons tag tags)
  define s where "s = fetch_questions_starting srv k tag (fromdate_of w) (todate_of w) 100 maxp"
  obtain c1 exc where c: "count_items_starting grain tag (yielded s) cs = (c1, exc)"
    by (cases "count_items_starting grain tag (yielded s) cs")
  have exc: "exc = None" using Cons.prems c unfolding s_def[symmetric]
    by (cases exc) (auto simp: Let_def s_def[symmetric])
  from count_items_starting_total[OF c[unfolded exc], of t]
  have t1: "table_total t c1 = table_total t cs + (if tag = t then length (yielded s) else 0)" by simp
  obtain lg where "run_tags_starting srv (requests s) w grain maxp tags c1 lg = Inr (cs', log')"
    using Cons.prems c exc unfolding s_def[symmetric]
    by (auto simp: Let_def s_def[symmetric] split: option.splits)
  from Cons.IH[OF this] show ?case using t1 by (simp add: Let_def s_def[symmetric])
qed

lemma sum_list_insort_key:
  "sum_list (map h (insort_key g x xs)) = (h x :: nat) + sum_list (map h xs)"
  by (induction xs) simp_all

lemma sum_list_sort_key: "sum_list (map h (sort_key g xs)) = (sum_list (map h xs) :: nat)"
  by (induction xs) (simp_all add: sum_list_insort_key)

lemma rows_total_write_rows: "rows_total t (write_rows cs) = table_total t cs"
proof -
  have "rows_total t (write_rows cs)
      = sum_list (map (\<lambda>x. snd (snd x)) (filter (\<lambda>x. fst (snd x) = t) (map (\<lambda>((d, tag), cnt). (d, tag, cnt)) cs)))"
    unfolding rows_total_def write_rows_def by (simp add: filter_sort sum_list_sort_key)
  also have "\<dots> = table_total t cs"
    unfolding table_total_def by (induction cs) auto
  finally show ?thesis .
qed

text \<open>
  Claim C1. Counting one item adds one to the entry of its (bucket, tag) key and leaves
  every other entry alone. For every run that ends normally and every tag, the counts of
  that tag summed over all rows written equal the number of items the fetcher yields for
  that tag over the run. This holds for both scripts.
\<close>

theorem counts_sum_to_yielded:
  "(\<forall>key key' cs. count_of (incr key cs) key' = count_of cs key' + (if key' = key then 1 else 0))
   \<and> (compute_window now months_from months_to = Inr w
        \<and> main srv now tags maxp months_from months_to = Inr (rows, log)
       \<longrightarrow> rows_total t rows = yielded_total srv 0 w maxp tags t)
   \<and> (compute_window_starting now = Inr w'
        \<and> main_starting srv now tags grain maxp = Inr (rows', log')
       \<longrightarrow> rows_total t rows' = yielded_total_starting srv 0 w' maxp tags t)"
proof (intro conjI allI impI)
  fix key key' :: "string \<times> string" and cs
  show "count_of (incr key cs) key' = count_of cs key' + (if key' = key then 1 else 0)"
    by (rule count_of_incr)
next
  assume a: "compute_window now months_from months_to = Inr w
        \<and> main srv now tags maxp months_from months_to = Inr (rows, log)"
  then obtain cs log0 where r: "run_tags srv 0 w maxp tags [] [] = Inr (cs, log0)" "rows = write_rows cs"
    using main_rows[of srv now tags maxp months_from months_to rows log] by auto
  show "rows_total t rows = yielded_total srv 0 w maxp tags t"
    unfolding r(2) rows_total_write_rows using run_tags_total[OF r(1), of t] by (simp add: table_total_def)
next
  assume a: "compute_window_starting now = Inr w'
        \<and> main_starting srv now tags grain maxp = Inr (rows', log')"
  then obtain cs log0 where r: "run_tags_starting srv 0 w' grain maxp tags [] [] = Inr (cs, log0)" "rows' = write_rows cs"
    using main_starting_rows[of srv now tags grain maxp rows' log'] by auto
  show "rows_total t rows' = yielded_total_starting srv 0 w' maxp tags t"
    unfolding r(2) rows_total_write_rows using run_tags_starting_total[OF r(1), of t] by (simp add: table_total_def)
qed


theorem counts_sum_to_yielded_witness:
  "compute_window july_15 6 2 = Inr july_15_window
   \<and> main flaky_server july_15 [''python'', ''java''] 50 6 2 = Inr (flaky_rows, flaky_log)
   \<and> rows_total ''java'' flaky_rows
       = yielded_total flaky_server 0 july_15_window 50 [''python'', ''java''] ''java''
   \<and> compute_window_starting july_15 = Inr july_15_window_starting
   \<and> main_starting flaky_server july_15 [''python'', ''java''] ''day'' 50 = Inr (flaky_rows, flaky_log_starting)
   \<and> rows_total ''java'' flaky_rows
       = yielded_total_starting flaky_server 0 july_15_window_starting 50 [''python'', ''java''] ''java''
   \<and> rows_total ''java'' flaky_rows = 3"
proof -
  note t = counts_sum_to_yielded[of july_15 6 2 july_15_window flaky_server "[''python'', ''java'']" 50
      flaky_rows flaky_log "''java''" july_15_window_starting "''day''" flaky_rows flaky_log_starting]
  have "rows_total ''java'' flaky_rows = 3" by code_simp
  with t july_15_windows flaky_run flaky_run_starting show ?thesis by blast
qed

section \<open>Responses that end the sequence\<close>

text \<open>
  A server whose \<^verbatim>\<open>quota_remaining\<close> fields are replaced by arbitrary ones: what a
  fetcher that never reads the quota cannot tell from the original.
\<close>

definition ignoring_quota :: "(nat \<Rightarrow> request \<Rightarrow> int option) \<Rightarrow> server \<Rightarrow> server" where
  "ignoring_quota f srv k req =
     (case srv k req of Response status txt pl \<Rightarrow> Response status txt (pl\<lparr>quota_remaining := f k req\<rparr>))"

lemma fetch_loop_bad_status:
  assumes "page \<le> maxp" "srv k (Params tag fromdate todate page pagesize) = Response status txt pl"
    "status \<noteq> 200"
  shows "fetch_loop srv k tag fromdate todate pagesize maxp page =
     \<lparr>yielded = [], effects = [],
      raised = Some (RuntimeError (''HTTP '' @ str_int status @ '' | tag='' @ tag
                  @ '' | page='' @ str_int page @ '' | body='' @ take 1500 txt)),
      requests = Suc k\<rparr>"
  using assms by (subst fetch_loop.simps) simp

lemma fetch_loop_quota:
  assumes "page \<le> maxp" "srv k (Params tag fromdate todate page pagesize) = Response 200 txt pl"
    "quota_remaining pl = Some 0"
  shows "fetch_loop srv k tag fromdate todate pagesize maxp page =
     \<lparr>yielded = [], effects = [],
      raised = Some (RuntimeError (''Quota exhausted (quota_remaining=0) | tag='' @ tag
                  @ '' | page='' @ str_int page)),
      requests = Suc k\<rparr>"
  using assms by (subst fetch_loop.simps) simp

lemma fetch_loop_starting_bad_status:
  assumes "page \<le> maxp" "srv k (Params tag fromdate todate page pagesize) = Response status txt pl"
    "status \<noteq> 200"
  shows "fetch_loop_starting srv k tag fromdate todate pagesize maxp page =
     \<lparr>yielded = [], effects = [PrintHTTP status, PrintBody (take 2000 txt)],
      raised = None, requests = Suc k\<rparr>"
  using assms by (subst fetch_loop_starting.simps) simp

lemma fetch_loop_starting_ignores_quota:
  "fetch_loop_starting (ignoring_quota f srv) k tag fromdate todate pagesize maxp page
     = fetch_loop_starting srv k tag fromdate todate pagesize maxp page"
proof (induction srv k tag fromdate todate pagesize maxp page rule: fetch_loop_starting.induct)
  case (1 srv k tag fromdate todate pagesize maxp page)
  show ?case
  proof (cases "page \<le> maxp")
    case False
    then show ?thesis
      by (subst fetch_loop_starting.simps, subst (2) fetch_loop_starting.simps) simp
  next
    case True
    obtain status body pl where r: "srv k (Params tag fromdate todate page pagesize) = Response status body pl"
      by (cases "srv k (Params tag fromdate todate page pagesize)")
    then have r': "ignoring_quota f srv k (Params tag fromdate todate page pagesize)
        = Response status body (pl\<lparr>quota_remaining := f k (Params tag fromdate todate page pagesize)\<rparr>)"
      by (simp add: ignoring_quota_def)
    show ?thesis
      using True r r' 1
      by (subst fetch_loop_starting.simps, subst (2) fetch_loop_starting.simps)
         (auto split: option.splits simp: Let_def)
  qed
qed


text \<open>
  Claim C3, as amended. In \<^verbatim>\<open>fetch_data.py\<close>, for every page requested, a status other
  than 200 ends the sequence at once with a \<^verbatim>\<open>RuntimeError\<close> whose message holds the
  status and the first 1500 characters of the body, and a payload with
  \<^verbatim>\<open>quota_remaining\<close> equal to 0 ends it at once with a \<^verbatim>\<open>RuntimeError\<close>; in both cases
  no item of that page is yielded. In \<^verbatim>\<open>starting_fetch_data.py\<close> a status other than 200
  ends the sequence at once, with no item of that page, after printing the status and the
  first 2000 characters of the body, but as an ordinary end, not an error; and the quota
  is never read: the sequence is the same whatever the \<^verbatim>\<open>quota_remaining\<close> fields are.
\<close>

theorem fetcher_fatal_responses:
  "(page \<le> maxp \<and> srv k (Params tag fromdate todate page pagesize) = Response status txt pl
      \<and> status \<noteq> 200
    \<longrightarrow> fetch_loop srv k tag fromdate todate pagesize maxp page =
          \<lparr>yielded = [], effects = [],
           raised = Some (RuntimeError (''HTTP '' @ str_int status @ '' | tag='' @ tag
                  @ '' | page='' @ str_int page @ '' | body='' @ take 1500 txt)),
           requests = Suc k\<rparr>
        \<and> fetch_loop_starting srv k tag fromdate todate pagesize maxp page =
          \<lparr>yielded = [], effects = [PrintHTTP status, PrintBody (take 2000 txt)],
           raised = None, requests = Suc k\<rparr>)
   \<and> (page \<le> maxp \<and> srv k (Params tag fromdate todate page pagesize) = Response 200 txt pl
      \<and> quota_remaining pl = Some 0
    \<longrightarrow> fetch_loop srv k tag fromdate todate pagesize maxp page =
          \<lparr>yielded = [], effects = [],
           raised = Some (RuntimeError (''Quota exhausted (quota_remaining=0) | tag='' @ tag
                  @ '' | page='' @ str_int page)),
           requests = Suc k\<rparr>)
   \<and> fetch_loop_starting (ignoring_quota f srv) k tag fromdate todate pagesize maxp page
       = fetch_loop_starting srv k tag fromdate todate pagesize maxp page"
proof (intro conjI impI)
  assume a: "page \<le> maxp \<and> srv k (Params tag fromdate todate page pagesize) = Response status txt pl
      \<and> status \<noteq> 200"
  show "fetch_loop srv k tag fromdate todate pagesize maxp page =
          \<lparr>yielded = [], effects = [],
           raised = Some (RuntimeError (''HTTP '' @ str_int status @ '' | tag='' @ tag
                  @ '' | page='' @ str_int page @ '' | body='' @ take 1500 txt)),
           requests = Suc k\<rparr>"
    by (rule fetch_loop_bad_status) (use a in blast)+
  show "fetch_loop_starting srv k tag fromdate todate pagesize maxp page =
          \<lparr>yielded = [], effects = [PrintHTTP status, PrintBody (take 2000 txt)],
           raised = None, requests = Suc k\<rparr>"
    by (rule fetch_loop_starting_bad_status) (use a in blast)+
next
  assume a: "page \<le> maxp \<and> srv k (Params tag fromdate todate page pagesize) = Response 200 txt pl
      \<and> quota_remaining pl = Some 0"
  show "fetch_loop srv k tag fromdate todate pagesize maxp page =
          \<lparr>yielded = [], effects = [],
           raised = Some (RuntimeError (''Quota exhausted (quota_remaining=0) | tag='' @ tag
                  @ '' | page='' @ str_int page)),
           requests = Suc k\<rparr>"
    by (rule fetch_loop_quota) (use a in blast)+
next
  show "fetch_loop_starting (ignoring_quota f srv) k tag fromdate todate pagesize maxp page
       = fetch_loop_starting srv k tag fromdate todate pagesize maxp page"
    by (rule fetch_loop_starting_ignores_quota)
qed

text \<open>A server whose only page reports an exhausted quota and still carries an item.\<close>

definition exhausted_server :: server where
  "exhausted_server k req =
     Response 200 [] ((page_of [question 1705400000] False)\<lparr>quota_remaining := Some 0\<rparr>)"

theorem fetcher_fatal_responses_witness:
  "(2::int) \<le> 50
   \<and> flaky_server 1 (Params ''python'' 0 1 2 100) = Response 500 ''internal error'' (page_of [] False)
   \<and> (500::int) \<noteq> 200
   \<and> fetch_loop flaky_server 1 ''python'' 0 1 100 50 2 =
        \<lparr>yielded = [], effects = [],
         raised = Some (RuntimeError ''HTTP 500 | tag=python | page=2 | body=internal error''),
         requests = 2\<rparr>
   \<and> fetch_loop_starting flaky_server 1 ''python'' 0 1 100 50 2 =
        \<lparr>yielded = [], effects = [PrintHTTP 500, PrintBody ''internal error''],
         raised = None, requests = 2\<rparr>
   \<and> (1::int) \<le> 50
   \<and> exhausted_server 0 (Params ''python'' 0 1 1 100)
        = Response 200 [] ((page_of [question 1705400000] False)\<lparr>quota_remaining := Some 0\<rparr>)
   \<and> quota_remaining ((page_of [question 1705400000] False)\<lparr>quota_remaining := Some 0\<rparr>) = Some 0
   \<and> fetch_loop exhausted_server 0 ''python'' 0 1 100 50 1 =
        \<lparr>yielded = [], effects = [],
         raised = Some (RuntimeError ''Quota exhausted (quota_remaining=0) | tag=python | page=1''),
         requests = 1\<rparr>"
proof -
  have r1: "flaky_server 1 (Params ''python'' 0 1 2 100) = Response 500 ''internal error'' (page_of [] False)"
    by (simp add: flaky_server_def)
  have r2: "exhausted_server 0 (Params ''python'' 0 1 1 100)
        = Response 200 [] ((page_of [question 1705400000] False)\<lparr>quota_remaining := Some 0\<rparr>)"
    by (simp add: exhausted_server_def)
  have m1: "''HTTP '' @ str_int 500 @ '' | tag='' @ ''python'' @ '' | page='' @ str_int 2
      @ '' | body='' @ take 1500 ''internal error''
      = ''HTTP 500 | tag=python | page=2 | body=internal error''"
    by code_simp
  have m2: "''Quota exhausted (quota_remaining=0) | tag='' @ ''python'' @ '' | page='' @ str_int 1
      = ''Quota exhausted (quota_remaining=0) | tag=python | page=1''"
    by code_simp
  have m3: "take 2000 ''internal error'' = ''internal error''" by simp
  note a = fetcher_fatal_responses[of 2 50 flaky_server 1 "''python''" 0 1 100 500 "''internal error''"
      "page_of [] False", THEN conjunct1, unfolded m1 m3]
  note b = fetcher_fatal_responses[of 1 50 exhausted_server 0 "''python''" 0 1 100 500 "[]"
      "(page_of [question 1705400000] False)\<lparr>quota_remaining := Some 0\<rparr>",
      THEN conjunct2, THEN conjunct1, unfolded m2]
  have q: "quota_remaining ((page_of [question 1705400000] False)\<lparr>quota_remaining := Some 0\<rparr>) = Some 0"
    by simp
  from a r1 have
    "fetch_loop flaky_server 1 ''python'' 0 1 100 50 2 =
        \<lparr>yielded = [], effects = [],
         raised = Some (RuntimeError ''HTTP 500 | tag=python | page=2 | body=internal error''),
         requests = 2\<rparr>
     \<and> fetch_loop_starting flaky_server 1 ''python'' 0 1 100 50 2 =
        \<lparr>yielded = [], effects = [PrintHTTP 500, PrintBody ''internal error''],
         raised = None, requests = 2\<rparr>"
    by simp
  moreover from b r2 q have
    "fetch_loop exhausted_server 0 ''python'' 0 1 100 50 1 =
        \<lparr>yielded = [], effects = [],
         raised = Some (RuntimeError ''Quota exhausted (quota_remaining=0) | tag=python | page=1''),
         requests = 1\<rparr>"
    by simp
  ultimately show ?thesis using r1 r2 q by simp
qed

text \<open>
  The claim as stated fails on \<^verbatim>\<open>starting_fetch_data.py\<close>: a page with
  \<^verbatim>\<open>quota_remaining\<close> 0 is yielded and the sequence ends normally, and a status 500 ends
  the sequence without an error.
\<close>

theorem fetcher_fatal_responses_starting_counterexample:
  "yielded (fetch_questions_starting exhausted_server 0 ''python'' 0 1 100 50) = [question 1705400000]
   \<and> raised (fetch_questions_starting exhausted_server 0 ''python'' 0 1 100 50) = None
   \<and> raised (fetch_questions_starting flaky_server 0 ''python'' 0 1 100 50) = None"
  by code_simp

section \<open>Items, tags and exceptions\<close>

text \<open>
  An item the body of the loop handles without raising: it has a \<^verbatim>\<open>creation_date\<close> and
  \<^verbatim>\<open>fromtimestamp\<close> converts it.
\<close>

definition well_formed :: "item \<Rightarrow> bool" where
  "well_formed q =
     (case creation_date q of
        None \<Rightarrow> False
      | Some ts \<Rightarrow> (case fromtimestamp ts of Inl e \<Rightarrow> False | Inr created \<Rightarrow> True))"

text \<open>
  The call \<^verbatim>\<open>fetch_questions(tag, fromdate, todate, max_pages=args.max_pages)\<close> that
  \<^verbatim>\<open>main\<close> makes for a tag, when \<open>k\<close> requests have been made before it, in either script.
\<close>

definition tag_stream :: "server \<Rightarrow> nat \<Rightarrow> string \<Rightarrow> window \<Rightarrow> int \<Rightarrow> stream" where
  "tag_stream srv k tag w maxp = fetch_questions srv k tag (fromdate_of w) (todate_of w) 100 maxp"

definition tag_stream_starting :: "server \<Rightarrow> nat \<Rightarrow> string \<Rightarrow> window \<Rightarrow> int \<Rightarrow> stream" where
  "tag_stream_starting srv k tag w maxp =
     fetch_questions_starting srv k tag (fromdate_of w) (todate_of w) 100 maxp"

text \<open>The number of requests made once the fetcher has run for each tag of a list.\<close>

fun requests_after :: "server \<Rightarrow> nat \<Rightarrow> window \<Rightarrow> int \<Rightarrow> string list \<Rightarrow> nat" where
  "requests_after srv k w maxp [] = k"
| "requests_after srv k w maxp (tag # tags) =
     requests_after srv (requests (tag_stream srv k tag w maxp)) w maxp tags"

fun requests_after_starting :: "server \<Rightarrow> nat \<Rightarrow> window \<Rightarrow> int \<Rightarrow> string list \<Rightarrow> nat" where
  "requests_after_starting srv k w maxp [] = k"
| "requests_after_starting srv k w maxp (tag # tags) =
     requests_after_starting srv (requests (tag_stream_starting srv k tag w maxp)) w maxp tags"

text \<open>The printed lines that carry a number of fetched items.\<close>

definition reports_count :: "event \<Rightarrow> bool" where
  "reports_count e = (case e of PrintStopped tag n \<Rightarrow> True | PrintDone tag n c \<Rightarrow> True | _ \<Rightarrow> False)"

lemma count_of_incr_le: "count_of cs key \<le> count_of (incr key' cs) key"
  by (simp add: count_of_incr)

lemma count_items_monotone:
  "count_items tag qs p = (p', exc) \<Longrightarrow> count_of (counts p) key \<le> count_of (counts p') key"
proof (induction qs arbitrary: p)
  case Nil then show ?case by simp
next
  case (Cons q qs)
  show ?case
  proof (cases "creation_date q")
    case None then show ?thesis using Cons.prems by simp
  next
    case (Some ts)
    show ?thesis
    proof (cases "fromtimestamp ts")
      case (Inl e) then show ?thesis using Cons.prems Some by simp
    next
      case (Inr created)
      let ?p = "\<lparr>counts = incr (day_bucket created, tag) (counts p),
                  last_created = Some created, fetched = fetched p + 1\<rparr>"
      have "count_items tag qs ?p = (p', exc)" using Cons.prems Some Inr by simp
      from Cons.IH[OF this] have "count_of (incr (day_bucket created, tag) (counts p)) key \<le> count_of (counts p') key"
        by simp
      then show ?thesis using count_of_incr_le[of "counts p" key "(day_bucket created, tag)"] by linarith
    qed
  qed
qed

lemma count_items_well_formed:
  "\<forall>q \<in> set qs. well_formed q \<Longrightarrow> \<exists>p'. count_items tag qs p = (p', None)"
proof (induction qs arbitrary: p)
  case Nil then show ?case by simp
next
  case (Cons q qs)
  then show ?case by (auto simp: well_formed_def split: option.splits sum.splits)
qed

lemma count_items_first_bad:
  assumes "\<forall>x \<in> set pre. well_formed x" "creation_date q = None"
  shows "\<exists>p'. count_items tag (pre @ q # post) p = (p', Some KeyError)"
  using assms(1)
proof (induction pre arbitrary: p)
  case Nil then show ?case using assms(2) by simp
next
  case (Cons x pre)
  then show ?case by (auto simp: well_formed_def split: option.splits sum.splits)
qed

lemma bucket_date_Inr:
  assumes "fromtimestamp ts = Inr c"
  shows "\<exists>d. bucket_date c grain = Inr d"
  using bucket_week(1)[OF fromtimestamp_Inr(1)[OF assms]]
  by (simp add: bucket_date_def)

lemma count_items_starting_monotone:
  "count_items_starting grain tag qs cs = (cs', exc) \<Longrightarrow> count_of cs key \<le> count_of cs' key"
proof (induction qs arbitrary: cs)
  case Nil then show ?case by simp
next
  case (Cons q qs)
  show ?case
  proof (cases "creation_date q")
    case None then show ?thesis using Cons.prems by simp
  next
    case (Some ts)
    show ?thesis
    proof (cases "fromtimestamp ts")
      case (Inl e) then show ?thesis using Cons.prems Some by simp
    next
      case (Inr created)
      then obtain d where d: "bucket_date created grain = Inr d" using bucket_date_Inr by blast
      have "count_items_starting grain tag qs (incr (d, tag) cs) = (cs', exc)"
        using Cons.prems Some Inr d by simp
      from Cons.IH[OF this] show ?thesis using count_of_incr_le[of cs key "(d, tag)"] by linarith
    qed
  qed
qed

lemma count_items_starting_well_formed:
  "\<forall>q \<in> set qs. well_formed q \<Longrightarrow> \<exists>cs'. count_items_starting grain tag qs cs = (cs', None)"
proof (induction qs arbitrary: cs)
  case Nil then show ?case by simp
next
  case (Cons q qs)
  then obtain ts c where q: "creation_date q = Some ts" "fromtimestamp ts = Inr c"
    by (auto simp: well_formed_def split: option.splits sum.splits)
  obtain d where d: "bucket_date c grain = Inr d" using bucket_date_Inr[OF q(2)] by blast
  show ?case using Cons q d by simp
qed

lemma count_items_starting_first_bad:
  assumes "\<forall>x \<in> set pre. well_formed x" "creation_date q = None"
  shows "\<exists>cs'. count_items_starting grain tag (pre @ q # post) cs = (cs', Some KeyError)"
  using assms(1)
proof (induction pre arbitrary: cs)
  case Nil then show ?case using assms(2) by simp
next
  case (Cons x pre)
  then obtain ts c where x: "creation_date x = Some ts" "fromtimestamp ts = Inr c"
    by (auto simp: well_formed_def split: option.splits sum.splits)
  obtain d where d: "bucket_date c grain = Inr d" using bucket_date_Inr[OF x(2)] by blast
  show ?case using Cons x d by simp
qed

lemma run_tags_fatal_step:
  assumes r: "raised (tag_stream srv k tag w maxp) = Some (RuntimeError msg)"
      and c: "count_items tag (yielded (tag_stream srv k tag w maxp))
                \<lparr>counts = cs, last_created = None, fetched = 0\<rparr> = (p, None)"
  shows "run_tags srv k w maxp (tag # rest) cs log =
           run_tags srv (requests (tag_stream srv k tag w maxp)) w maxp rest (counts p)
             (log @ [PrintTag tag (date_of (start_dt w)) (date_of (end_dt w))]
                @ effects (tag_stream srv k tag w maxp)
                @ [PrintError msg, PrintStopped tag (length (yielded (tag_stream srv k tag w maxp)))])"
proof -
  have f: "fetched p = length (yielded (tag_stream srv k tag w maxp))"
    using count_items_total(2)[OF c] by simp
  show ?thesis using r c f unfolding tag_stream_def by (simp add: Let_def)
qed

lemma run_tags_item_error:
  assumes c: "count_items tag (yielded (tag_stream srv k tag w maxp))
                \<lparr>counts = cs, last_created = None, fetched = 0\<rparr> = (p, Some KeyError)"
  shows "run_tags srv k w maxp (tag # rest) cs log = Inl KeyError"
  using c unfolding tag_stream_def by (simp add: Let_def)

lemma run_tags_starting_step:
  assumes r: "raised (tag_stream_starting srv k tag w maxp) = None"
      and c: "count_items_starting grain tag (yielded (tag_stream_starting srv k tag w maxp)) cs = (cs1, None)"
  shows "run_tags_starting srv k w grain maxp (tag # rest) cs log =
           run_tags_starting srv (requests (tag_stream_starting srv k tag w maxp)) w grain maxp rest cs1
             (log @ effects (tag_stream_starting srv k tag w maxp))"
  using r c unfolding tag_stream_starting_def by (simp add: Let_def)

lemma run_tags_starting_item_error:
  assumes c: "count_items_starting grain tag (yielded (tag_stream_starting srv k tag w maxp)) cs
                = (cs1, Some KeyError)"
  shows "run_tags_starting srv k w grain maxp (tag # rest) cs log = Inl KeyError"
  using c unfolding tag_stream_starting_def by (simp add: Let_def)

lemma run_tags_Cons_Inr:
  assumes "run_tags srv k w maxp (tag # tags) cs log = Inr (cs', log')"
  shows "\<exists>p exc more. count_items tag (yielded (tag_stream srv k tag w maxp))
                \<lparr>counts = cs, last_created = None, fetched = 0\<rparr> = (p, exc)
           \<and> run_tags srv (requests (tag_stream srv k tag w maxp)) w maxp tags (counts p) (log @ more)
                = Inr (cs', log')"
proof -
  define s where "s = tag_stream srv k tag w maxp"
  have s: "fetch_questions srv k tag (fromdate_of w) (todate_of w) 100 maxp = s"
    unfolding s_def tag_stream_def by simp
  obtain p exc where c: "count_items tag (yielded s) \<lparr>counts = cs, last_created = None, fetched = 0\<rparr> = (p, exc)"
    by (cases "count_items tag (yielded s) \<lparr>counts = cs, last_created = None, fetched = 0\<rparr>")
  define e where "e = (case exc of Some x \<Rightarrow> Some x | None \<Rightarrow> raised s)"
  have "\<exists>more. run_tags srv (requests s) w maxp tags (counts p) (log @ more) = Inr (cs', log')"
  proof (cases e)
    case None
    then have "run_tags srv k w maxp (tag # tags) cs log =
       run_tags srv (requests s) w maxp tags (counts p)
         (log @ ([PrintTag tag (date_of (start_dt w)) (date_of (end_dt w))] @ effects s
            @ [if last_created p \<noteq> None then PrintDone tag (fetched p) (last_created p)
               else PrintDone tag 0 None]))"
      using c unfolding e_def by (simp add: Let_def s)
    then show ?thesis using assms by metis
  next
    case (Some x)
    show ?thesis
    proof (cases x)
      case (RuntimeError msg)
      then have "run_tags srv k w maxp (tag # tags) cs log =
         run_tags srv (requests s) w maxp tags (counts p)
           (log @ ([PrintTag tag (date_of (start_dt w)) (date_of (end_dt w))] @ effects s
              @ [PrintError msg, PrintStopped tag (fetched p)]))"
        using c Some unfolding e_def by (simp add: Let_def s)
      then show ?thesis using assms by metis
    qed (use assms c Some in \<open>simp_all add: Let_def s e_def[symmetric]\<close>)
  qed
  then show ?thesis using c unfolding s_def by blast
qed

lemma run_tags_keeps:
  assumes "run_tags srv k w maxp tags cs log = Inr (cs', log')"
  shows "count_of cs key \<le> count_of cs' key \<and> (\<exists>more. log' = log @ more)"
  using assms
proof (induction tags arbitrary: k cs log)
  case Nil then show ?case by simp
next
  case (Cons tag tags)
  from run_tags_Cons_Inr[OF Cons.prems] obtain p exc more where
    c: "count_items tag (yielded (tag_stream srv k tag w maxp))
                \<lparr>counts = cs, last_created = None, fetched = 0\<rparr> = (p, exc)"
    and r: "run_tags srv (requests (tag_stream srv k tag w maxp)) w maxp tags (counts p) (log @ more)
                = Inr (cs', log')" by blast
  have m: "count_of cs key \<le> count_of (counts p) key" using count_items_monotone[OF c] by simp
  from Cons.IH[OF r] m show ?case by auto
qed

lemma run_tags_starting_Cons_Inr:
  assumes "run_tags_starting srv k w grain maxp (tag # tags) cs log = Inr (cs', log')"
  shows "\<exists>c1. count_items_starting grain tag (yielded (tag_stream_starting srv k tag w maxp)) cs = (c1, None)
           \<and> raised (tag_stream_starting srv k tag w maxp) = None
           \<and> run_tags_starting srv (requests (tag_stream_starting srv k tag w maxp)) w grain maxp tags c1
                (log @ effects (tag_stream_starting srv k tag w maxp)) = Inr (cs', log')"
proof -
  define s where "s = tag_stream_starting srv k tag w maxp"
  obtain c1 exc where c: "count_items_starting grain tag (yielded s) cs = (c1, exc)"
    by (cases "count_items_starting grain tag (yielded s) cs")
  define e where "e = (case exc of Some x \<Rightarrow> Some x | None \<Rightarrow> raised s)"
  have u: "run_tags_starting srv k w grain maxp (tag # tags) cs log =
      (case e of Some x \<Rightarrow> Inl x
         | None \<Rightarrow> run_tags_starting srv (requests s) w grain maxp tags c1 (log @ effects s))"
    using c unfolding s_def tag_stream_starting_def e_def by (simp add: Let_def)
  have "e = None" using assms unfolding u by (cases e) simp_all
  then have "exc = None" "raised s = None" unfolding e_def by (cases exc; simp)+
  then show ?thesis using assms c \<open>e = None\<close> unfolding u s_def[symmetric] by auto
qed

lemma run_tags_starting_keeps:
  assumes "run_tags_starting srv k w grain maxp tags cs log = Inr (cs', log')"
  shows "count_of cs key \<le> count_of cs' key \<and> (\<exists>more. log' = log @ more)"
  using assms
proof (induction tags arbitrary: k cs log)
  case Nil then show ?case by simp
next
  case (Cons tag tags)
  from run_tags_starting_Cons_Inr[OF Cons.prems] obtain c1 where
    c: "count_items_starting grain tag (yielded (tag_stream_starting srv k tag w maxp)) cs = (c1, None)"
    and r: "run_tags_starting srv (requests (tag_stream_starting srv k tag w maxp)) w grain maxp tags c1
                (log @ effects (tag_stream_starting srv k tag w maxp)) = Inr (cs', log')" by blast
  have m: "count_of cs key \<le> count_of c1 key" using count_items_starting_monotone[OF c] by simp
  from Cons.IH[OF r] m show ?case by auto
qed

lemma fetch_loop_starting_effects:
  "\<forall>e \<in> set (effects (fetch_loop_starting srv k tag fromdate todate pagesize maxp page)). \<not> reports_count e"
proof (induction srv k tag fromdate todate pagesize maxp page rule: fetch_loop_starting.induct)
  case (1 srv k tag fromdate todate pagesize maxp page)
  show ?case
  proof (cases "page \<le> maxp")
    case False
    then show ?thesis by (subst fetch_loop_starting.simps) simp
  next
    case True
    obtain status body pl where r: "srv k (Params tag fromdate todate page pagesize) = Response status body pl"
      by (cases "srv k (Params tag fromdate todate page pagesize)")
    show ?thesis
      using True r 1
      by (subst fetch_loop_starting.simps)
         (auto split: option.splits simp: Let_def emit_def reports_count_def)
  qed
qed

lemma run_tags_starting_log:
  assumes "run_tags_starting srv k w grain maxp tags cs log = Inr (cs', log')"
    and "\<forall>e \<in> set log. \<not> reports_count e"
  shows "\<forall>e \<in> set log'. \<not> reports_count e"
  using assms
proof (induction tags arbitrary: k cs log)
  case Nil then show ?case by simp
next
  case (Cons tag tags)
  from run_tags_starting_Cons_Inr[OF Cons.prems(1)] obtain c1 where
    r: "run_tags_starting srv (requests (tag_stream_starting srv k tag w maxp)) w grain maxp tags c1
                (log @ effects (tag_stream_starting srv k tag w maxp)) = Inr (cs', log')" by blast
  have e: "\<forall>e \<in> set (log @ effects (tag_stream_starting srv k tag w maxp)). \<not> reports_count e"
    using Cons.prems(2) fetch_loop_starting_effects[of srv k tag "fromdate_of w" "todate_of w" 100 maxp 1]
    unfolding tag_stream_starting_def fetch_questions_starting_def by auto
  from Cons.IH[OF r e] show ?case .
qed

lemma run_tags_append:
  assumes "run_tags srv k w maxp ts1 cs log = Inr (cs1, log1)"
  shows "run_tags srv k w maxp (ts1 @ ts2) cs log
           = run_tags srv (requests_after srv k w maxp ts1) w maxp ts2 cs1 log1"
  using assms
proof (induction ts1 arbitrary: k cs log)
  case Nil then show ?case by simp
next
  case (Cons tag ts1)
  define s where "s = fetch_questions srv k tag (fromdate_of w) (todate_of w) 100 maxp"
  obtain p exc where c: "count_items tag (yielded s) \<lparr>counts = cs, last_created = None, fetched = 0\<rparr> = (p, exc)"
    by (cases "count_items tag (yielded s) \<lparr>counts = cs, last_created = None, fetched = 0\<rparr>")
  show ?case
    using Cons.prems c Cons.IH
    by (auto simp: Let_def s_def[symmetric] tag_stream_def split: option.splits error.splits)
qed

lemma run_tags_starting_append:
  assumes "run_tags_starting srv k w grain maxp ts1 cs log = Inr (cs1, log1)"
  shows "run_tags_starting srv k w grain maxp (ts1 @ ts2) cs log
           = run_tags_starting srv (requests_after_starting srv k w maxp ts1) w grain maxp ts2 cs1 log1"
  using assms
proof (induction ts1 arbitrary: k cs log)
  case Nil then show ?case by simp
next
  case (Cons tag ts1)
  define s where "s = fetch_questions_starting srv k tag (fromdate_of w) (todate_of w) 100 maxp"
  obtain c1 exc where c: "count_items_starting grain tag (yielded s) cs = (c1, exc)"
    by (cases "count_items_starting grain tag (yielded s) cs")
  show ?case
    using Cons.prems c Cons.IH
    by (auto simp: Let_def s_def[symmetric] tag_stream_starting_def split: option.splits)
qed

lemma fetch_loop_starting_raised:
  "raised (fetch_loop_starting srv k tag fromdate todate pagesize maxp page) = None
   \<or> raised (fetch_loop_starting srv k tag fromdate todate pagesize maxp page) = Some ValueError"
proof (induction srv k tag fromdate todate pagesize maxp page rule: fetch_loop_starting.induct)
  case (1 srv k tag fromdate todate pagesize maxp page)
  show ?case
  proof (cases "page \<le> maxp")
    case False
    then show ?thesis by (subst fetch_loop_starting.simps, subst (2) fetch_loop_starting.simps) simp
  next
    case True
    obtain status body pl where r: "srv k (Params tag fromdate todate page pagesize) = Response status body pl"
      by (cases "srv k (Params tag fromdate todate page pagesize)")
    show ?thesis
      using True r 1
      by (subst fetch_loop_starting.simps, subst (2) fetch_loop_starting.simps)
         (auto split: option.splits simp: Let_def emit_def)
  qed
qed

lemma rows_of_counts:
  assumes "0 < count_of cs (d, tag)"
  shows "(d, tag, count_of cs (d, tag)) \<in> set (write_rows cs)"
proof -
  obtain c where c: "map_of cs (d, tag) = Some c" "count_of cs (d, tag) = c"
    using assms unfolding count_of_def by (cases "map_of cs (d, tag)") simp_all
  then have "((d, tag), c) \<in> set cs" by (intro map_of_SomeD)
  then have "(d, tag, c) \<in> set (write_rows cs)" unfolding write_rows_def by force
  then show ?thesis using c by simp
qed

lemma fatal_step:
  assumes r: "raised (tag_stream srv k tag w maxp) = Some (RuntimeError msg)"
      and wf: "\<forall>q \<in> set (yielded (tag_stream srv k tag w maxp)). well_formed q"
  shows "\<exists>p. count_items tag (yielded (tag_stream srv k tag w maxp))
                \<lparr>counts = cs, last_created = None, fetched = 0\<rparr> = (p, None)
           \<and> table_total tag (counts p) = table_total tag cs + length (yielded (tag_stream srv k tag w maxp))
           \<and> (\<forall>key. count_of cs key \<le> count_of (counts p) key)
           \<and> run_tags srv k w maxp (tag # rest) cs log =
               run_tags srv (requests (tag_stream srv k tag w maxp)) w maxp rest (counts p)
                 (log @ [PrintTag tag (date_of (start_dt w)) (date_of (end_dt w))]
                    @ effects (tag_stream srv k tag w maxp)
                    @ [PrintError msg, PrintStopped tag (length (yielded (tag_stream srv k tag w maxp)))])
           \<and> (\<forall>cs' log'. run_tags srv k w maxp (tag # rest) cs log = Inr (cs', log') \<longrightarrow>
                 PrintError msg \<in> set log'
                 \<and> PrintStopped tag (length (yielded (tag_stream srv k tag w maxp))) \<in> set log'
                 \<and> (\<forall>key. count_of (counts p) key \<le> count_of cs' key)
                 \<and> (\<forall>d. 0 < count_of (counts p) (d, tag) \<longrightarrow>
                       (\<exists>c. count_of (counts p) (d, tag) \<le> c \<and> (d, tag, c) \<in> set (write_rows cs'))))"
proof -
  let ?s = "tag_stream srv k tag w maxp"
  obtain p where c: "count_items tag (yielded ?s) \<lparr>counts = cs, last_created = None, fetched = 0\<rparr> = (p, None)"
    using count_items_well_formed[OF wf] by blast
  have t: "table_total tag (counts p) = table_total tag cs + length (yielded ?s)"
    using count_items_total(1)[OF c, of tag] by simp
  have m: "\<forall>key. count_of cs key \<le> count_of (counts p) key"
    using count_items_monotone[OF c] by simp
  let ?log = "log @ [PrintTag tag (date_of (start_dt w)) (date_of (end_dt w))]
                    @ effects ?s @ [PrintError msg, PrintStopped tag (length (yielded ?s))]"
  have st: "run_tags srv k w maxp (tag # rest) cs log =
               run_tags srv (requests ?s) w maxp rest (counts p) ?log"
    by (rule run_tags_fatal_step[OF r c])
  have e: "PrintError msg \<in> set log'
           \<and> PrintStopped tag (length (yielded ?s)) \<in> set log'
           \<and> (\<forall>key. count_of (counts p) key \<le> count_of cs' key)
           \<and> (\<forall>d. 0 < count_of (counts p) (d, tag) \<longrightarrow>
                 (\<exists>c. count_of (counts p) (d, tag) \<le> c \<and> (d, tag, c) \<in> set (write_rows cs')))"
    if run: "run_tags srv k w maxp (tag # rest) cs log = Inr (cs', log')" for cs' log'
  proof -
    have r': "run_tags srv (requests ?s) w maxp rest (counts p) ?log = Inr (cs', log')"
      using run unfolding st .
    have k: "\<And>key. count_of (counts p) key \<le> count_of cs' key"
      and "\<exists>more. log' = ?log @ more"
      using run_tags_keeps[OF r'] by blast+
    then obtain more where l: "log' = ?log @ more" by blast
    have "\<exists>c. count_of (counts p) (d, tag) \<le> c \<and> (d, tag, c) \<in> set (write_rows cs')"
      if "0 < count_of (counts p) (d, tag)" for d
    proof -
      have "0 < count_of cs' (d, tag)" using that k[of "(d, tag)"] by linarith
      from rows_of_counts[OF this] k[of "(d, tag)"] show ?thesis by blast
    qed
    then show ?thesis using k l by simp
  qed
  show ?thesis using c t m st e by blast
qed

lemma starting_step:
  assumes r: "raised (tag_stream_starting srv k tag w maxp) = None"
      and wf: "\<forall>q \<in> set (yielded (tag_stream_starting srv k tag w maxp)). well_formed q"
  shows "\<exists>cs1. count_items_starting grain tag (yielded (tag_stream_starting srv k tag w maxp)) cs = (cs1, None)
           \<and> table_total tag cs1 = table_total tag cs + length (yielded (tag_stream_starting srv k tag w maxp))
           \<and> (\<forall>key. count_of cs key \<le> count_of cs1 key)
           \<and> run_tags_starting srv k w grain maxp (tag # rest) cs log =
               run_tags_starting srv (requests (tag_stream_starting srv k tag w maxp)) w grain maxp rest cs1
                 (log @ effects (tag_stream_starting srv k tag w maxp))
           \<and> (\<forall>cs' log'. run_tags_starting srv k w grain maxp (tag # rest) cs log = Inr (cs', log') \<longrightarrow>
                 (\<forall>key. count_of cs1 key \<le> count_of cs' key)
                 \<and> (\<forall>d. 0 < count_of cs1 (d, tag) \<longrightarrow>
                       (\<exists>c. count_of cs1 (d, tag) \<le> c \<and> (d, tag, c) \<in> set (write_rows cs'))))"
proof -
  let ?s = "tag_stream_starting srv k tag w maxp"
  obtain cs1 where c: "count_items_starting grain tag (yielded ?s) cs = (cs1, None)"
    using count_items_starting_well_formed[OF wf] by blast
  have t: "table_total tag cs1 = table_total tag cs + length (yielded ?s)"
    using count_items_starting_total[OF c, of tag] by simp
  have m: "\<forall>key. count_of cs key \<le> count_of cs1 key"
    using count_items_starting_monotone[OF c] by simp
  have st: "run_tags_starting srv k w grain maxp (tag # rest) cs log =
               run_tags_starting srv (requests ?s) w grain maxp rest cs1 (log @ effects ?s)"
    by (rule run_tags_starting_step[OF r c])
  have e: "(\<forall>key. count_of cs1 key \<le> count_of cs' key)
           \<and> (\<forall>d. 0 < count_of cs1 (d, tag) \<longrightarrow>
                 (\<exists>c. count_of cs1 (d, tag) \<le> c \<and> (d, tag, c) \<in> set (write_rows cs')))"
    if run: "run_tags_starting srv k w grain maxp (tag # rest) cs log = Inr (cs', log')" for cs' log'
  proof -
    have r': "run_tags_starting srv (requests ?s) w grain maxp rest cs1 (log @ effects ?s) = Inr (cs', log')"
      using run unfolding st .
    have k: "\<And>key. count_of cs1 key \<le> count_of cs' key"
      using run_tags_starting_keeps[OF r'] by blast
    have "\<exists>c. count_of cs1 (d, tag) \<le> c \<and> (d, tag, c) \<in> set (write_rows cs')"
      if "0 < count_of cs1 (d, tag)" for d
    proof -
      have "0 < count_of cs' (d, tag)" using that k[of "(d, tag)"] by linarith
      from rows_of_counts[OF this] k[of "(d, tag)"] show ?thesis by blast
    qed
    then show ?thesis using k by simp
  qed
  show ?thesis using c t m st e by blast
qed

lemma main_starting_log:
  assumes "main_starting srv now tags grain maxp = Inr (rows, log)"
  shows "filter reports_count log = []"
proof -
  from main_starting_rows[OF assms] obtain w cs log0 where
    r: "run_tags_starting srv 0 w grain maxp tags [] [] = Inr (cs, log0)"
    and l: "log = log0 @ [PrintSaved (length rows)]" by blast
  have "\<forall>e \<in> set log0. \<not> reports_count e" by (rule run_tags_starting_log[OF r]) simp
  then show ?thesis unfolding l by (simp add: reports_count_def filter_empty_conv)
qed

text \<open>
  A server whose pages for \<^verbatim>\<open>python\<close> hold an item without \<^verbatim>\<open>creation_date\<close>, and one
  that sends a negative backoff.
\<close>

definition malformed_server :: server where
  "malformed_server k req =
     (case req of Params tag fromdate todate page pagesize \<Rightarrow>
        if tag = ''python'' then
          Response 200 [] (page_of [question 1705400000, \<lparr>creation_date = None\<rparr>, question 1705400100] False)
        else if tag = ''java'' then
          (if page = 1 then Response 200 [] (page_of [question 1705400000, question 1708000000] True)
           else Response 200 [] (page_of [question 1708000500] False))
        else Response 200 [] (page_of [] False))"

definition negative_backoff_server :: server where
  "negative_backoff_server k req =
     Response 200 [] ((page_of [question 1705400000] False)\<lparr>backoff := Some (- 1)\<rparr>)"

definition java_counts :: count_table where
  "java_counts = [((''2024-01-16'', ''java''), 1), ((''2024-02-15'', ''java''), 2)]"

definition java_log :: "event list" where
  "java_log =
     [PrintTag ''java'' \<lparr>year = 2024, month = 1, day = 15\<rparr> \<lparr>year = 2024, month = 5, day = 15\<rparr>,
      PrintDone ''java'' 3
        (Some \<lparr>year = 2024, month = 2, day = 15, hour = 12, minute = 35, second = 0, microsecond = 0\<rparr>)]"

lemma flaky_python_stream:
  "tag_stream flaky_server 0 ''python'' july_15_window 50 =
     \<lparr>yielded = [question 1705400000, question 1705400100], effects = [],
      raised = Some (RuntimeError ''HTTP 500 | tag=python | page=2 | body=internal error''),
      requests = 2\<rparr>"
  by code_simp

lemma flaky_python_stream_starting:
  "tag_stream_starting flaky_server 0 ''python'' july_15_window 50 =
     \<lparr>yielded = [question 1705400000, question 1705400100],
      effects = [PrintHTTP 500, PrintBody ''internal error''], raised = None, requests = 2\<rparr>"
  by code_simp

lemma questions_well_formed:
  "well_formed (question 1705400000)" "well_formed (question 1705400100)"
  by code_simp+

lemma malformed_java_run:
  "run_tags malformed_server 0 july_15_window 50 [''java''] [] [] = Inr (java_counts, java_log)"
  "requests_after malformed_server 0 july_15_window 50 [''java''] = 2"
  "yielded (tag_stream malformed_server 2 ''python'' july_15_window 50)
     = [question 1705400000] @ \<lparr>creation_date = None\<rparr> # [question 1705400100]"
  by code_simp+

lemma malformed_java_run_starting:
  "run_tags_starting malformed_server 0 july_15_window_starting ''day'' 50 [''java''] [] []
     = Inr (java_counts, [])"
  "requests_after_starting malformed_server 0 july_15_window_starting 50 [''java''] = 2"
  "yielded (tag_stream_starting malformed_server 2 ''python'' july_15_window_starting 50)
     = [question 1705400000] @ \<lparr>creation_date = None\<rparr> # [question 1705400100]"
  by code_simp+

lemma negative_backoff_run:
  "raised (tag_stream_starting negative_backoff_server 0 ''python'' july_15_window_starting 50) = Some ValueError"
  "main_starting negative_backoff_server july_15 [''python'', ''java''] ''day'' 50 = Inl ValueError"
  by code_simp+

section \<open>A fatal error of one tag\<close>

text \<open>
  Claim C2, as amended. In \<^verbatim>\<open>fetch_data.py\<close>, when the fetcher ends the stream of a tag
  with its \<^verbatim>\<open>RuntimeError\<close> and the items it yielded before are well formed, the run does
  not abort there: every item yielded was counted, no count of the table went down, the
  error and the number of items fetched so far are printed, and the loop goes on with the
  remaining tags exactly as a run started on them with that table; if the run then ends
  normally, both lines are in its output and every bucket counted for the tag is in the
  rows written, with at least that count. In \<^verbatim>\<open>starting_fetch_data.py\<close> the fetcher never
  raises a \<^verbatim>\<open>RuntimeError\<close> (it ends normally or, on a negative backoff, with the
  \<^verbatim>\<open>ValueError\<close> of \<^verbatim>\<open>time.sleep\<close>); when it ends normally, as it does after a status
  other than 200, the items yielded are counted, the counts stay and reach the rows
  written, and the loop goes on with the remaining tags, but no line that carries a
  number of fetched items is ever printed.
\<close>

theorem fatal_error_is_per_tag:
  "(raised (tag_stream srv k tag w maxp) = Some (RuntimeError msg)
      \<and> (\<forall>q \<in> set (yielded (tag_stream srv k tag w maxp)). well_formed q)
    \<longrightarrow> (\<exists>p. count_items tag (yielded (tag_stream srv k tag w maxp))
                \<lparr>counts = cs, last_created = None, fetched = 0\<rparr> = (p, None)
           \<and> table_total tag (counts p) = table_total tag cs + length (yielded (tag_stream srv k tag w maxp))
           \<and> (\<forall>key. count_of cs key \<le> count_of (counts p) key)
           \<and> run_tags srv k w maxp (tag # rest) cs log =
               run_tags srv (requests (tag_stream srv k tag w maxp)) w maxp rest (counts p)
                 (log @ [PrintTag tag (date_of (start_dt w)) (date_of (end_dt w))]
                    @ effects (tag_stream srv k tag w maxp)
                    @ [PrintError msg, PrintStopped tag (length (yielded (tag_stream srv k tag w maxp)))])
           \<and> (\<forall>cs' log'. run_tags srv k w maxp (tag # rest) cs log = Inr (cs', log') \<longrightarrow>
                 PrintError msg \<in> set log'
                 \<and> PrintStopped tag (length (yielded (tag_stream srv k tag w maxp))) \<in> set log'
                 \<and> (\<forall>key. count_of (counts p) key \<le> count_of cs' key)
                 \<and> (\<forall>d. 0 < count_of (counts p) (d, tag) \<longrightarrow>
                       (\<exists>c. count_of (counts p) (d, tag) \<le> c \<and> (d, tag, c) \<in> set (write_rows cs'))))))
   \<and> (raised (tag_stream_starting srv k tag w maxp) = None
      \<and> (\<forall>q \<in> set (yielded (tag_stream_starting srv k tag w maxp)). well_formed q)
    \<longrightarrow> (\<exists>cs1. count_items_starting grain tag (yielded (tag_stream_starting srv k tag w maxp)) cs = (cs1, None)
           \<and> table_total tag cs1 = table_total tag cs + length (yielded (tag_stream_starting srv k tag w maxp))
           \<and> (\<forall>key. count_of cs key \<le> count_of cs1 key)
           \<and> run_tags_starting srv k w grain maxp (tag # rest) cs log =
               run_tags_starting srv (requests (tag_stream_starting srv k tag w maxp)) w grain maxp rest cs1
                 (log @ effects (tag_stream_starting srv k tag w maxp))
           \<and> (\<forall>cs' log'. run_tags_starting srv k w grain maxp (tag # rest) cs log = Inr (cs', log') \<longrightarrow>
                 (\<forall>key. count_of cs1 key \<le> count_of cs' key)
                 \<and> (\<forall>d. 0 < count_of cs1 (d, tag) \<longrightarrow>
                       (\<exists>c. count_of cs1 (d, tag) \<le> c \<and> (d, tag, c) \<in> set (write_rows cs'))))))
   \<and> (raised (tag_stream_starting srv k tag w maxp) = None
        \<or> raised (tag_stream_starting srv k tag w maxp) = Some ValueError)
   \<and> (main_starting srv now tags grain maxp = Inr (rows, out) \<longrightarrow> filter reports_count out = [])"
proof (intro conjI impI)
  assume "raised (tag_stream srv k tag w maxp) = Some (RuntimeError msg)
      \<and> (\<forall>q \<in> set (yielded (tag_stream srv k tag w maxp)). well_formed q)"
  then have a: "raised (tag_stream srv k tag w maxp) = Some (RuntimeError msg)"
    and b: "\<forall>q \<in> set (yielded (tag_stream srv k tag w maxp)). well_formed q" by blast+
  show "\<exists>p. count_items tag (yielded (tag_stream srv k tag w maxp))
                \<lparr>counts = cs, last_created = None, fetched = 0\<rparr> = (p, None)
           \<and> table_total tag (counts p) = table_total tag cs + length (yielded (tag_stream srv k tag w maxp))
           \<and> (\<forall>key. count_of cs key \<le> count_of (counts p) key)
           \<and> run_tags srv k w maxp (tag # rest) cs log =
               run_tags srv (requests (tag_stream srv k tag w maxp)) w maxp rest (counts p)
                 (log @ [PrintTag tag (date_of (start_dt w)) (date_of (end_dt w))]
                    @ effects (tag_stream srv k tag w maxp)
                    @ [PrintError msg, PrintStopped tag (length (yielded (tag_stream srv k tag w maxp)))])
           \<and> (\<forall>cs' log'. run_tags srv k w maxp (tag # rest) cs log = Inr (cs', log') \<longrightarrow>
                 PrintError msg \<in> set log'
                 \<and> PrintStopped tag (length (yielded (tag_stream srv k tag w maxp))) \<in> set log'
                 \<and> (\<forall>key. count_of (counts p) key \<le> count_of cs' key)
                 \<and> (\<forall>d. 0 < count_of (counts p) (d, tag) \<longrightarrow>
                       (\<exists>c. count_of (counts p) (d, tag) \<le> c \<and> (d, tag, c) \<in> set (write_rows cs'))))"
    by (rule fatal_step[OF a b])
next
  assume "raised (tag_stream_starting srv k tag w maxp) = None
      \<and> (\<forall>q \<in> set (yielded (tag_stream_starting srv k tag w maxp)). well_formed q)"
  then have a: "raised (tag_stream_starting srv k tag w maxp) = None"
    and b: "\<forall>q \<in> set (yielded (tag_stream_starting srv k tag w maxp)). well_formed q" by blast+
  show "\<exists>cs1. count_items_starting grain tag (yielded (tag_stream_starting srv k tag w maxp)) cs = (cs1, None)
           \<and> table_total tag cs1 = table_total tag cs + length (yielded (tag_stream_starting srv k tag w maxp))
           \<and> (\<forall>key. count_of cs key \<le> count_of cs1 key)
           \<and> run_tags_starting srv k w grain maxp (tag # rest) cs log =
               run_tags_starting srv (requests (tag_stream_starting srv k tag w maxp)) w grain maxp rest cs1
                 (log @ effects (tag_stream_starting srv k tag w maxp))
           \<and> (\<forall>cs' log'. run_tags_starting srv k w grain maxp (tag # rest) cs log = Inr (cs', log') \<longrightarrow>
                 (\<forall>key. count_of cs1 key \<le> count_of cs' key)
                 \<and> (\<forall>d. 0 < count_of cs1 (d, tag) \<longrightarrow>
                       (\<exists>c. count_of cs1 (d, tag) \<le> c \<and> (d, tag, c) \<in> set (write_rows cs'))))"
    by (rule starting_step[OF a b])
next
  show "raised (tag_stream_starting srv k tag w maxp) = None
        \<or> raised (tag_stream_starting srv k tag w maxp) = Some ValueError"
    unfolding tag_stream_starting_def fetch_questions_starting_def by (rule fetch_loop_starting_raised)
next
  assume "main_starting srv now tags grain maxp = Inr (rows, out)"
  then show "filter reports_count out = []" by (rule main_starting_log)
qed


theorem fatal_error_is_per_tag_witness:
  "raised (tag_stream flaky_server 0 ''python'' july_15_window 50)
     = Some (RuntimeError ''HTTP 500 | tag=python | page=2 | body=internal error'')
   \<and> yielded (tag_stream flaky_server 0 ''python'' july_15_window 50)
     = [question 1705400000, question 1705400100]
   \<and> well_formed (question 1705400000) \<and> well_formed (question 1705400100)
   \<and> (\<exists>p. count_items ''python'' [question 1705400000, question 1705400100]
                \<lparr>counts = [], last_created = None, fetched = 0\<rparr> = (p, None)
          \<and> table_total ''python'' (counts p) = 2
          \<and> run_tags flaky_server 0 july_15_window 50 [''python'', ''java''] [] [] =
               run_tags flaky_server 2 july_15_window 50 [''java''] (counts p)
                 [PrintTag ''python'' (date_of (start_dt july_15_window)) (date_of (end_dt july_15_window)),
                  PrintError ''HTTP 500 | tag=python | page=2 | body=internal error'',
                  PrintStopped ''python'' 2])
   \<and> main flaky_server july_15 [''python'', ''java''] 50 6 2 = Inr (flaky_rows, flaky_log)
   \<and> raised (tag_stream_starting flaky_server 0 ''python'' july_15_window 50) = None
   \<and> (\<exists>cs1. count_items_starting ''day'' ''python'' [question 1705400000, question 1705400100] [] = (cs1, None)
          \<and> table_total ''python'' cs1 = 2
          \<and> run_tags_starting flaky_server 0 july_15_window ''day'' 50 [''python'', ''java''] [] [] =
               run_tags_starting flaky_server 2 july_15_window ''day'' 50 [''java''] cs1
                 [PrintHTTP 500, PrintBody ''internal error''])
   \<and> main_starting flaky_server july_15 [''python'', ''java''] ''day'' 50 = Inr (flaky_rows, flaky_log_starting)
   \<and> filter reports_count flaky_log_starting = []"
proof -
  note t = fatal_error_is_per_tag[where srv = flaky_server and k = 0 and tag = "''python''"
      and w = july_15_window and maxp = 50
      and msg = "''HTTP 500 | tag=python | page=2 | body=internal error''"
      and cs = "[]" and log = "[]" and rest = "[''java'']" and grain = "''day''"
      and now = july_15 and tags = "[''python'', ''java'']" and rows = flaky_rows
      and out = flaky_log_starting]
  have h1: "raised (tag_stream flaky_server 0 ''python'' july_15_window 50)
     = Some (RuntimeError ''HTTP 500 | tag=python | page=2 | body=internal error'')"
    unfolding flaky_python_stream by simp
  have y: "yielded (tag_stream flaky_server 0 ''python'' july_15_window 50)
     = [question 1705400000, question 1705400100]"
    unfolding flaky_python_stream by simp
  have h2: "\<forall>q \<in> set (yielded (tag_stream flaky_server 0 ''python'' july_15_window 50)). well_formed q"
    unfolding y using questions_well_formed by simp
  have g1: "raised (tag_stream_starting flaky_server 0 ''python'' july_15_window 50) = None"
    unfolding flaky_python_stream_starting by simp
  have y': "yielded (tag_stream_starting flaky_server 0 ''python'' july_15_window 50)
     = [question 1705400000, question 1705400100]"
    unfolding flaky_python_stream_starting by simp
  have g2: "\<forall>q \<in> set (yielded (tag_stream_starting flaky_server 0 ''python'' july_15_window 50)). well_formed q"
    unfolding y' using questions_well_formed by simp
  have rq: "requests (tag_stream flaky_server 0 ''python'' july_15_window 50) = 2"
    "effects (tag_stream flaky_server 0 ''python'' july_15_window 50) = []"
    "requests (tag_stream_starting flaky_server 0 ''python'' july_15_window 50) = 2"
    "effects (tag_stream_starting flaky_server 0 ''python'' july_15_window 50)
       = [PrintHTTP 500, PrintBody ''internal error'']"
    unfolding flaky_python_stream flaky_python_stream_starting by simp_all
  from t[THEN conjunct1, THEN mp, OF conjI[OF h1 h2]] obtain p where
    p: "count_items ''python'' (yielded (tag_stream flaky_server 0 ''python'' july_15_window 50))
                \<lparr>counts = [], last_created = None, fetched = 0\<rparr> = (p, None)"
       "table_total ''python'' (counts p) = table_total ''python'' []
          + length (yielded (tag_stream flaky_server 0 ''python'' july_15_window 50))"
       "run_tags flaky_server 0 july_15_window 50 (''python'' # [''java'']) [] [] =
               run_tags flaky_server (requests (tag_stream flaky_server 0 ''python'' july_15_window 50))
                 july_15_window 50 [''java''] (counts p)
                 ([] @ [PrintTag ''python'' (date_of (start_dt july_15_window)) (date_of (end_dt july_15_window))]
                    @ effects (tag_stream flaky_server 0 ''python'' july_15_window 50)
                    @ [PrintError ''HTTP 500 | tag=python | page=2 | body=internal error'',
                       PrintStopped ''python'' (length (yielded (tag_stream flaky_server 0 ''python'' july_15_window 50)))])"
    by (elim exE conjE)
  have a: "\<exists>p. count_items ''python'' [question 1705400000, question 1705400100]
                \<lparr>counts = [], last_created = None, fetched = 0\<rparr> = (p, None)
          \<and> table_total ''python'' (counts p) = 2
          \<and> run_tags flaky_server 0 july_15_window 50 [''python'', ''java''] [] [] =
               run_tags flaky_server 2 july_15_window 50 [''java''] (counts p)
                 [PrintTag ''python'' (date_of (start_dt july_15_window)) (date_of (end_dt july_15_window)),
                  PrintError ''HTTP 500 | tag=python | page=2 | body=internal error'',
                  PrintStopped ''python'' 2]"
    using p unfolding y rq by (intro exI[of _ p]) (simp del: run_tags.simps add: table_total_def numeral_2_eq_2)
  from t[THEN conjunct2, THEN conjunct1, THEN mp, OF conjI[OF g1 g2]] obtain cs1 where
    c: "count_items_starting ''day'' ''python''
          (yielded (tag_stream_starting flaky_server 0 ''python'' july_15_window 50)) [] = (cs1, None)"
       "table_total ''python'' cs1 = table_total ''python'' []
          + length (yielded (tag_stream_starting flaky_server 0 ''python'' july_15_window 50))"
       "run_tags_starting flaky_server 0 july_15_window ''day'' 50 (''python'' # [''java'']) [] [] =
               run_tags_starting flaky_server
                 (requests (tag_stream_starting flaky_server 0 ''python'' july_15_window 50))
                 july_15_window ''day'' 50 [''java''] cs1
                 ([] @ effects (tag_stream_starting flaky_server 0 ''python'' july_15_window 50))"
    by (elim exE conjE)
  have b: "\<exists>cs1. count_items_starting ''day'' ''python'' [question 1705400000, question 1705400100] [] = (cs1, None)
          \<and> table_total ''python'' cs1 = 2
          \<and> run_tags_starting flaky_server 0 july_15_window ''day'' 50 [''python'', ''java''] [] [] =
               run_tags_starting flaky_server 2 july_15_window ''day'' 50 [''java''] cs1
                 [PrintHTTP 500, PrintBody ''internal error'']"
    using c unfolding y' rq by (intro exI[of _ cs1]) (simp del: run_tags_starting.simps add: table_total_def numeral_2_eq_2)
  have l: "filter reports_count flaky_log_starting = []"
    using t[THEN conjunct2, THEN conjunct2, THEN conjunct2] flaky_run_starting by (rule mp)
  show ?thesis
    using h1 y questions_well_formed a flaky_run g1 b flaky_run_starting l by (intro conjI)
qed


text \<open>
  The claim as stated fails on \<^verbatim>\<open>starting_fetch_data.py\<close>: after a status 500 on the
  second page of a tag the run prints the status and the body and nothing about the number
  of items fetched; and an exception raised by the fetcher in the middle of a stream (the
  \<^verbatim>\<open>ValueError\<close> of \<^verbatim>\<open>time.sleep\<close> on a negative backoff) ends the whole run.
\<close>

theorem fatal_error_is_per_tag_starting_counterexample:
  "main_starting flaky_server july_15 [''python'', ''java''] ''day'' 50 = Inr (flaky_rows, flaky_log_starting)
   \<and> flaky_log_starting = [PrintHTTP 500, PrintBody ''internal error'', Sleep 3, PrintSaved 3]
   \<and> filter reports_count flaky_log_starting = []
   \<and> raised (tag_stream_starting negative_backoff_server 0 ''python'' july_15_window_starting 50)
        = Some ValueError
   \<and> main_starting negative_backoff_server july_15 [''python'', ''java''] ''day'' 50 = Inl ValueError"
  using flaky_run_starting negative_backoff_run
  by (simp add: flaky_log_starting_def reports_count_def)


section \<open>An item without a creation date\<close>

text \<open>
  Claim C10. In both scripts, when the fetcher yields an item without \<^verbatim>\<open>creation_date\<close>
  after well-formed ones, the loop over the tags ends with \<^verbatim>\<open>KeyError\<close>, whatever the
  table, the output so far and the remaining tags are: in \<^verbatim>\<open>fetch_data.py\<close> the handler
  for \<^verbatim>\<open>RuntimeError\<close> does not take it, in \<^verbatim>\<open>starting_fetch_data.py\<close> there is no
  handler. So a run that reaches such an item after any tags processed normally ends with
  \<^verbatim>\<open>KeyError\<close> and writes no rows.
\<close>

theorem missing_creation_date_aborts:
  "(yielded (tag_stream srv k tag w maxp) = pre @ q # post
      \<and> (\<forall>x \<in> set pre. well_formed x) \<and> creation_date q = None
    \<longrightarrow> run_tags srv k w maxp (tag # rest) cs log = Inl KeyError)
   \<and> (compute_window now months_from months_to = Inr w
      \<and> run_tags srv 0 w maxp ts1 [] [] = Inr (cs1, log1)
      \<and> yielded (tag_stream srv (requests_after srv 0 w maxp ts1) tag w maxp) = pre @ q # post
      \<and> (\<forall>x \<in> set pre. well_formed x) \<and> creation_date q = None
    \<longrightarrow> main srv now (ts1 @ tag # rest) maxp months_from months_to = Inl KeyError)
   \<and> (yielded (tag_stream_starting srv k tag w' maxp) = pre @ q # post
      \<and> (\<forall>x \<in> set pre. well_formed x) \<and> creation_date q = None
    \<longrightarrow> run_tags_starting srv k w' grain maxp (tag # rest) cs log = Inl KeyError)
   \<and> (compute_window_starting now = Inr w'
      \<and> run_tags_starting srv 0 w' grain maxp ts1 [] [] = Inr (cs1, log1)
      \<and> yielded (tag_stream_starting srv (requests_after_starting srv 0 w' maxp ts1) tag w' maxp) = pre @ q # post
      \<and> (\<forall>x \<in> set pre. well_formed x) \<and> creation_date q = None
    \<longrightarrow> main_starting srv now (ts1 @ tag # rest) grain maxp = Inl KeyError)"
proof (intro conjI impI)
  assume a: "yielded (tag_stream srv k tag w maxp) = pre @ q # post
      \<and> (\<forall>x \<in> set pre. well_formed x) \<and> creation_date q = None"
  then obtain p where "count_items tag (pre @ q # post) \<lparr>counts = cs, last_created = None, fetched = 0\<rparr>
      = (p, Some KeyError)"
    using count_items_first_bad[of pre q tag post] by blast
  then show "run_tags srv k w maxp (tag # rest) cs log = Inl KeyError"
    using a by (intro run_tags_item_error[of tag srv k w maxp cs p]) simp
next
  assume a: "compute_window now months_from months_to = Inr w
      \<and> run_tags srv 0 w maxp ts1 [] [] = Inr (cs1, log1)
      \<and> yielded (tag_stream srv (requests_after srv 0 w maxp ts1) tag w maxp) = pre @ q # post
      \<and> (\<forall>x \<in> set pre. well_formed x) \<and> creation_date q = None"
  let ?k = "requests_after srv 0 w maxp ts1"
  obtain p where "count_items tag (pre @ q # post) \<lparr>counts = cs1, last_created = None, fetched = 0\<rparr>
      = (p, Some KeyError)"
    using a count_items_first_bad[of pre q tag post] by blast
  then have "run_tags srv ?k w maxp (tag # rest) cs1 log1 = Inl KeyError"
    using a by (intro run_tags_item_error[of tag srv ?k w maxp cs1 p]) simp
  moreover have "run_tags srv 0 w maxp (ts1 @ tag # rest) [] [] = run_tags srv ?k w maxp (tag # rest) cs1 log1"
    using a by (intro run_tags_append) blast
  ultimately show "main srv now (ts1 @ tag # rest) maxp months_from months_to = Inl KeyError"
    using a unfolding main_def by simp
next
  assume a: "yielded (tag_stream_starting srv k tag w' maxp) = pre @ q # post
      \<and> (\<forall>x \<in> set pre. well_formed x) \<and> creation_date q = None"
  then obtain c1 where "count_items_starting grain tag (pre @ q # post) cs = (c1, Some KeyError)"
    using count_items_starting_first_bad[of pre q grain tag post] by blast
  then show "run_tags_starting srv k w' grain maxp (tag # rest) cs log = Inl KeyError"
    using a by (intro run_tags_starting_item_error[of grain tag srv k w' maxp cs c1]) simp
next
  assume a: "compute_window_starting now = Inr w'
      \<and> run_tags_starting srv 0 w' grain maxp ts1 [] [] = Inr (cs1, log1)
      \<and> yielded (tag_stream_starting srv (requests_after_starting srv 0 w' maxp ts1) tag w' maxp) = pre @ q # post
      \<and> (\<forall>x \<in> set pre. well_formed x) \<and> creation_date q = None"
  let ?k = "requests_after_starting srv 0 w' maxp ts1"
  obtain c1 where "count_items_starting grain tag (pre @ q # post) cs1 = (c1, Some KeyError)"
    using a count_items_starting_first_bad[of pre q grain tag post] by blast
  then have "run_tags_starting srv ?k w' grain maxp (tag # rest) cs1 log1 = Inl KeyError"
    using a by (intro run_tags_starting_item_error[of grain tag srv ?k w' maxp cs1 c1]) simp
  moreover have "run_tags_starting srv 0 w' grain maxp (ts1 @ tag # rest) [] []
      = run_tags_starting srv ?k w' grain maxp (tag # rest) cs1 log1"
    using a by (intro run_tags_starting_append) blast
  ultimately show "main_starting srv now (ts1 @ tag # rest) grain maxp = Inl KeyError"
    using a unfolding main_starting_def by simp
qed

theorem missing_creation_date_aborts_witness:
  "compute_window july_15 6 2 = Inr july_15_window
   \<and> run_tags malformed_server 0 july_15_window 50 [''java''] [] [] = Inr (java_counts, java_log)
   \<and> yielded (tag_stream malformed_server (requests_after malformed_server 0 july_15_window 50 [''java''])
        ''python'' july_15_window 50)
       = [question 1705400000] @ \<lparr>creation_date = None\<rparr> # [question 1705400100]
   \<and> well_formed (question 1705400000)
   \<and> creation_date \<lparr>creation_date = None\<rparr> = None
   \<and> run_tags malformed_server 2 july_15_window 50 [''python'', ''go''] java_counts java_log = Inl KeyError
   \<and> main malformed_server july_15 [''java'', ''python'', ''go''] 50 6 2 = Inl KeyError
   \<and> compute_window_starting july_15 = Inr july_15_window_starting
   \<and> run_tags_starting malformed_server 0 july_15_window_starting ''day'' 50 [''java''] [] []
       = Inr (java_counts, [])
   \<and> yielded (tag_stream_starting malformed_server
        (requests_after_starting malformed_server 0 july_15_window_starting 50 [''java''])
        ''python'' july_15_window_starting 50)
       = [question 1705400000] @ \<lparr>creation_date = None\<rparr> # [question 1705400100]
   \<and> run_tags_starting malformed_server 2 july_15_window_starting ''day'' 50 [''python'', ''go''] java_counts []
       = Inl KeyError
   \<and> main_starting malformed_server july_15 [''java'', ''python'', ''go''] ''day'' 50 = Inl KeyError"
proof -
  note t = missing_creation_date_aborts[where srv = malformed_server and k = 2 and tag = "''python''"
      and w = july_15_window and w' = july_15_window_starting and maxp = 50
      and pre = "[question 1705400000]" and q = "\<lparr>creation_date = None\<rparr>"
      and post = "[question 1705400100]" and rest = "[''go'']" and cs = java_counts
      and now = july_15 and months_from = 6 and months_to = 2 and ?ts1.0 = "[''java'']"
      and ?cs1.0 = java_counts and grain = "''day''"]
  have wf: "\<forall>x \<in> set [question 1705400000]. well_formed x" using questions_well_formed by simp
  have n: "creation_date \<lparr>creation_date = None\<rparr> = None" by simp
  have y1: "yielded (tag_stream malformed_server (requests_after malformed_server 0 july_15_window 50 [''java''])
        ''python'' july_15_window 50)
       = [question 1705400000] @ \<lparr>creation_date = None\<rparr> # [question 1705400100]"
    unfolding malformed_java_run(2) by (rule malformed_java_run(3))
  have y2: "yielded (tag_stream_starting malformed_server
        (requests_after_starting malformed_server 0 july_15_window_starting 50 [''java''])
        ''python'' july_15_window_starting 50)
       = [question 1705400000] @ \<lparr>creation_date = None\<rparr> # [question 1705400100]"
    unfolding malformed_java_run_starting(2) by (rule malformed_java_run_starting(3))
  have a: "run_tags malformed_server 2 july_15_window 50 [''python'', ''go''] java_counts java_log = Inl KeyError"
    by (rule t[where log = java_log, THEN conjunct1, THEN mp]) (intro conjI malformed_java_run(3) wf n)
  have b: "main malformed_server july_15 ([''java''] @ ''python'' # [''go'']) 50 6 2 = Inl KeyError"
    by (rule t[where ?log1.0 = java_log, THEN conjunct2, THEN conjunct1, THEN mp])
       (intro conjI july_15_windows(1) malformed_java_run(1) y1 wf n)
  have c: "run_tags_starting malformed_server 2 july_15_window_starting ''day'' 50 [''python'', ''go'']
       java_counts [] = Inl KeyError"
    by (rule t[where log = "[]", THEN conjunct2, THEN conjunct2, THEN conjunct1, THEN mp])
       (intro conjI malformed_java_run_starting(3) wf n)
  have d: "main_starting malformed_server july_15 ([''java''] @ ''python'' # [''go'']) ''day'' 50 = Inl KeyError"
    by (rule t[where ?log1.0 = "[]", THEN conjunct2, THEN conjunct2, THEN conjunct2, THEN mp])
       (intro conjI july_15_windows(2) malformed_java_run_starting(1) y2 wf n)
  show ?thesis
    using july_15_windows malformed_java_run(1) y1 questions_well_formed(1) n a b
      malformed_java_run_starting(1) y2 c d
    by simp
qed

end
